theory Spec2Isabelle
  imports Main "HOL-Library.Char_ord" "HOL-Library.List_Lexorder" "HOL-Library.Multiset"
begin

section \<open>Python strings and the two regular expressions of the source\<close>

text \<open>
  Strings are byte strings (\<open>char list\<close>); they are compared as Python 2 compares
  \<open>str\<close> values, byte by byte with a proper prefix smaller (the lexicographic order on
  lists over the order of characters by code).
\<close>

datatype error = IndexError | AttributeError | ZeroDivisionError | ToolkitError

definition is_digit :: "char \<Rightarrow> bool" where
  "is_digit c \<longleftrightarrow> c \<in> set ''0123456789''"

text \<open>\<open>str(n)\<close> for a non-negative integer.\<close>

definition digit_char :: "nat \<Rightarrow> char" where
  "digit_char d = ''0123456789'' ! d"

function str_nat :: "nat \<Rightarrow> string" where
  "str_nat n = (if n < 10 then [digit_char n] else str_nat (n div 10) @ [digit_char (n mod 10)])"
  by pat_completeness auto
termination
  by (relation "measure id") auto

declare str_nat.simps [simp del]

text \<open>\<open>s.split(sep)\<close> for a non-empty separator: cut at the leftmost occurrence, go on
  behind it.\<close>

function split_str :: "string \<Rightarrow> string \<Rightarrow> string list" where
  "split_str sep s =
     (if sep \<noteq> [] \<and> take (length sep) s = sep
      then [] # split_str sep (drop (length sep) s)
      else (case s of
              [] \<Rightarrow> [[]]
            | c # cs \<Rightarrow> (case split_str sep cs of
                           [] \<Rightarrow> [[c]]
                         | p # ps \<Rightarrow> (c # p) # ps)))"
  by pat_completeness auto
termination
proof (relation "measure (\<lambda>(sep, s). length s)")
  fix sep s :: string
  assume "sep \<noteq> [] \<and> take (length sep) s = sep"
  then have "0 < length sep" and "length (take (length sep) s) = length sep"
    by simp_all
  then have "length s - length sep < length s"
    by (cases s) auto
  then show "((sep, drop (length sep) s), (sep, s)) \<in> measure (\<lambda>(sep, s). length s)"
    by simp
qed auto

declare split_str.simps [simp del]

text \<open>\<open>sep.join(xs)\<close>.\<close>

fun join :: "string \<Rightarrow> string list \<Rightarrow> string" where
  "join sep [] = []"
| "join sep [x] = x"
| "join sep (x # y # ys) = x @ sep @ join sep (y # ys)"

text \<open>\<open>s[1:-1]\<close> and \<open>s[:-1]\<close>.\<close>

definition slice_inner :: "string \<Rightarrow> string" where
  "slice_inner s = butlast (tl s)"

text \<open>
  The pattern \<open>\:[0-9]+\]\<close>, scanned as \<open>re.findall\<close> and \<open>re.sub\<close> scan it: from the
  left, a match is a colon, the maximal non-empty run of digits behind it, and a closing
  bracket; the scan goes on behind a match, and one character further where there is
  none. A string is read as its sequence of matches (\<open>Lab\<close>, with the digits of the
  group) and of the characters between them (\<open>Chr\<close>).
\<close>

datatype token = Chr char | Lab string

text \<open>What follows a colon completes a match: digits, then the bracket.\<close>

definition label_start :: "string \<Rightarrow> bool" where
  "label_start cs \<longleftrightarrow>
     takeWhile is_digit cs \<noteq> [] \<and> take 1 (dropWhile is_digit cs) = '']''"

function tokens :: "string \<Rightarrow> token list" where
  "tokens [] = []"
| "tokens (c # cs) =
     (if c = CHR '':'' \<and> label_start cs
      then Lab (takeWhile is_digit cs) # tokens (tl (dropWhile is_digit cs))
      else Chr c # tokens cs)"
  by pat_completeness auto
termination
proof (relation "measure length")
  fix c :: char and cs :: string
  have "length (dropWhile is_digit cs) \<le> length cs"
    by (rule length_dropWhile_le)
  then have "length (tl (dropWhile is_digit cs)) \<le> length cs"
    by simp
  then show "(tl (dropWhile is_digit cs), c # cs) \<in> measure length"
    by simp
qed auto

declare tokens.simps(2) [simp del]

text \<open>\<open>re.findall('\:([0-9]+)\]', s)\<close>: the groups of the matches, in order.\<close>

fun labels_of :: "token list \<Rightarrow> string list" where
  "labels_of [] = []"
| "labels_of (Chr c # ts) = labels_of ts"
| "labels_of (Lab l # ts) = l # labels_of ts"

definition findall_labels :: "string \<Rightarrow> string list" where
  "findall_labels s = labels_of (tokens s)"

text \<open>\<open>re.sub('\:[0-9]+\]', ']', s)\<close>.\<close>

fun strip_tokens :: "token list \<Rightarrow> string" where
  "strip_tokens [] = []"
| "strip_tokens (Chr c # ts) = c # strip_tokens ts"
| "strip_tokens (Lab l # ts) = CHR '']'' # strip_tokens ts"

definition strip_labels :: "string \<Rightarrow> string" where
  "strip_labels s = strip_tokens (tokens s)"

text \<open>\<open>re.search('\:[0-9]+\]', s)\<close>: the text of the first match, if any.\<close>

fun first_label :: "token list \<Rightarrow> string option" where
  "first_label [] = None"
| "first_label (Chr c # ts) = first_label ts"
| "first_label (Lab l # ts) = Some ('':'' @ l @ '']'')"

definition search_label :: "string \<Rightarrow> string option" where
  "search_label s = first_label (tokens s)"

section \<open>Template Canonicalizer\<close>

text \<open>
  \<open>re.sub\<close> with the replacement \<open>lambda match: ':' + replacements.pop(0) + ']'\<close>: every
  match takes the head of the list and removes it; \<open>pop\<close> on an empty list raises
  IndexError.
\<close>

fun sub_pop :: "token list \<Rightarrow> string list \<Rightarrow> error + string" where
  "sub_pop [] reps = Inr []"
| "sub_pop (Chr c # ts) reps =
     (case sub_pop ts reps of Inl e \<Rightarrow> Inl e | Inr r \<Rightarrow> Inr (c # r))"
| "sub_pop (Lab l # ts) [] = Inl IndexError"
| "sub_pop (Lab l # ts) (x # reps) =
     (case sub_pop ts reps of Inl e \<Rightarrow> Inl e | Inr r \<Rightarrow> Inr ('':'' @ x @ '']'' @ r))"

text \<open>The loop of \<open>reassign_atom_mapping\<close> over \<open>all_labels\<close>, with its three variables.\<close>

fun assign_loop ::
  "string list \<Rightarrow> (string \<rightharpoonup> string) \<Rightarrow> nat \<Rightarrow> string list \<Rightarrow> string list" where
  "assign_loop [] replacement_dict counter replacements = replacements"
| "assign_loop (label # ls) replacement_dict counter replacements =
     (case replacement_dict label of
        None \<Rightarrow>
          assign_loop ls (replacement_dict(label \<mapsto> str_nat counter)) (counter + 1)
            (replacements @ [str_nat counter])
      | Some r \<Rightarrow> assign_loop ls replacement_dict counter (replacements @ [r]))"

definition reassign_atom_mapping :: "string \<Rightarrow> error + string" where
  "reassign_atom_mapping transform =
     (let all_labels = findall_labels transform;
          replacements = assign_loop all_labels Map.empty 1 []
      in sub_pop (tokens transform) replacements)"

text \<open>
  \<open>[j[0] for j in sorted(enumerate(xs), key = lambda x: x[1])]\<close>; \<open>sorted\<close> is stable,
  and so is \<open>sort_key\<close>.
\<close>

definition sortorder :: "string list \<Rightarrow> nat list" where
  "sortorder xs = map fst (sort_key snd (enumerate 0 xs))"

text \<open>\<open>[xs[j] for j in order]\<close>; an index out of range raises IndexError.\<close>

fun pick :: "'a list \<Rightarrow> nat list \<Rightarrow> error + 'a list" where
  "pick xs [] = Inr []"
| "pick xs (j # js) =
     (if j < length xs
      then (case pick xs js of Inl e \<Rightarrow> Inl e | Inr r \<Rightarrow> Inr (xs ! j # r))
      else Inl IndexError)"

text \<open>
  The body of the loop over the molecules of \<open>canonicalize_template\<close>: the fragments of
  one molecule, sorted by their text without labels. It returns the new
  \<open>template_nolabels_mols[i]\<close> and the new \<open>template_mols[i]\<close>.
\<close>

definition sort_mol_frags :: "string \<Rightarrow> string \<Rightarrow> error + (string \<times> string)" where
  "sort_mol_frags nolabel_mol mol =
     (let nolabel_mol_frags = split_str ''.'' nolabel_mol;
          mol_frags = split_str ''.'' mol;
          order = sortorder nolabel_mol_frags
      in case pick nolabel_mol_frags order of
           Inl e \<Rightarrow> Inl e
         | Inr ns \<Rightarrow> (case pick mol_frags order of
                        Inl e \<Rightarrow> Inl e
                      | Inr ms \<Rightarrow> Inr (join ''.'' ns, join ''.'' ms)))"

text \<open>
  \<open>for i in range(len(template_mols))\<close>: the two lists are walked together;
  \<open>template_nolabels_mols[i]\<close> raises IndexError when that list is the shorter one. When
  it is the longer one its tail is left as it is.
\<close>

fun sort_all_mols :: "string list \<Rightarrow> string list \<Rightarrow> error + (string list \<times> string list)" where
  "sort_all_mols ns [] = Inr (ns, [])"
| "sort_all_mols [] (m # ms) = Inl IndexError"
| "sort_all_mols (n # ns) (m # ms) =
     (case sort_mol_frags n m of
        Inl e \<Rightarrow> Inl e
      | Inr (n', m') \<Rightarrow>
          (case sort_all_mols ns ms of
             Inl e \<Rightarrow> Inl e
           | Inr (ns', ms') \<Rightarrow> Inr (n' # ns', m' # ms')))"

definition canonicalize_template :: "string \<Rightarrow> error + string" where
  "canonicalize_template template =
     (let template_nolabels = strip_labels template;
          template_nolabels_mols = split_str '').('' (slice_inner template_nolabels);
          template_mols = split_str '').('' (slice_inner template)
      in case sort_all_mols template_nolabels_mols template_mols of
           Inl e \<Rightarrow> Inl e
         | Inr (nolabels_mols, mols) \<Rightarrow>
             (case pick mols (sortorder nolabels_mols) of
                Inl e \<Rightarrow> Inl e
              | Inr sorted_mols \<Rightarrow> Inr (''('' @ join '').('' sorted_mols @ '')'')))"

text \<open>\<open>[canonicalize_template(x) for x in xs]\<close>, stopping at the first exception.\<close>

fun canonicalize_all :: "string list \<Rightarrow> error + string list" where
  "canonicalize_all [] = Inr []"
| "canonicalize_all (x # xs) =
     (case canonicalize_template x of
        Inl e \<Rightarrow> Inl e
      | Inr y \<Rightarrow> (case canonicalize_all xs of Inl e \<Rightarrow> Inl e | Inr ys \<Rightarrow> Inr (y # ys)))"

text \<open>The first line of \<open>canonicalize_transform\<close>: \<open>transform_reordered\<close>.\<close>

definition transform_reordered :: "string \<Rightarrow> error + string" where
  "transform_reordered transform =
     (case canonicalize_all (split_str ''>>'' transform) of
        Inl e \<Rightarrow> Inl e
      | Inr halves \<Rightarrow> Inr (join ''>>'' halves))"

definition canonicalize_transform :: "string \<Rightarrow> error + string" where
  "canonicalize_transform transform =
     (case transform_reordered transform of
        Inl e \<Rightarrow> Inl e
      | Inr reordered \<Rightarrow> reassign_atom_mapping reordered)"

section \<open>Templates as text: notions used to state the properties of the canonicalizer\<close>

text \<open>
  The inverse reading of \<open>tokens\<close>, and a relabelling of a text: every match
  \<open>:n]\<close> of the label pattern becomes \<open>:g(n)]\<close>, everything else stays.
\<close>

fun render :: "token list \<Rightarrow> string" where
  "render [] = []"
| "render (Chr c # ts) = c # render ts"
| "render (Lab l # ts) = '':'' @ l @ '']'' @ render ts"

fun relabel_tokens :: "(string \<Rightarrow> string) \<Rightarrow> token list \<Rightarrow> token list" where
  "relabel_tokens g [] = []"
| "relabel_tokens g (Chr c # ts) = Chr c # relabel_tokens g ts"
| "relabel_tokens g (Lab l # ts) = Lab (g l) # relabel_tokens g ts"

definition relabel :: "(string \<Rightarrow> string) \<Rightarrow> string \<Rightarrow> string" where
  "relabel g s = render (relabel_tokens g (tokens s))"

text \<open>A non-empty string of decimal digits: what the label pattern accepts as a label.\<close>

definition digits :: "string \<Rightarrow> bool" where
  "digits l \<longleftrightarrow> l \<noteq> [] \<and> (\<forall>c\<in>set l. is_digit c)"

text \<open>
  The number of a label by first appearance in a list of labels: one more than the
  number of distinct labels in front of its first occurrence.
\<close>

definition first_rank :: "string list \<Rightarrow> string \<Rightarrow> nat" where
  "first_rank ls l = Suc (card (set (takeWhile (\<lambda>x. x \<noteq> l) ls)))"

text \<open>A dot directly followed by an opening parenthesis occurs in the text.\<close>

fun dot_paren :: "string \<Rightarrow> bool" where
  "dot_paren [] = False"
| "dot_paren [c] = False"
| "dot_paren (c # d # r) = ((c = CHR ''.'' \<and> d = CHR ''('') \<or> dot_paren (d # r))"

text \<open>A character that is no part of any match of the label pattern.\<close>

definition safe :: "char \<Rightarrow> bool" where
  "safe c \<longleftrightarrow> c \<noteq> CHR '':'' \<and> c \<noteq> CHR '']'' \<and> \<not> is_digit c"

text \<open>
  The molecules of a template half as \<open>canonicalize_template\<close> reads them
  (\<open>template_mols\<close>), and the text a molecule is finally sorted by
  (\<open>template_nolabels_mols[i]\<close> after the loop over the molecules).
\<close>

definition mols_of :: "string \<Rightarrow> string list" where
  "mols_of h = split_str '').('' (slice_inner h)"

definition mol_key :: "string \<Rightarrow> string" where
  "mol_key m = join ''.'' (sort (split_str ''.'' (strip_labels m)))"

text \<open>
  The format of a template (data model): each side is a parenthesised list
  \<open>(m1).(m2)...\<close> of molecules, each molecule a dot-joined list of fragment strings.
  A fragment string is one the serializer can emit: it does not contain the reaction
  arrow character and does not begin with an opening parenthesis.
\<close>

definition frag_ok :: "string \<Rightarrow> bool" where
  "frag_ok f \<longleftrightarrow> CHR ''>'' \<notin> set f \<and> take 1 f \<noteq> ''(''"

definition half_ok :: "string \<Rightarrow> bool" where
  "half_ok h \<longleftrightarrow>
     take 1 h = ''('' \<and> 2 \<le> length h \<and> last h = CHR '')'' \<and>
     (\<forall>m\<in>set (mols_of h). \<forall>f\<in>set (split_str ''.'' m). frag_ok f)"

definition transform_ok :: "string \<Rightarrow> bool" where
  "transform_ok t \<longleftrightarrow> (\<forall>h\<in>set (split_str ''>>'' t). half_ok h)"

text \<open>
  The same format as data: a side is a list of molecules, a molecule a list of
  fragments; \<open>render_half\<close> writes it out, \<open>parse_half\<close> reads it back, and
  \<open>canon_mols\<close> is the two-level sort on that structure.
\<close>

definition render_half :: "string list list \<Rightarrow> string" where
  "render_half mols = ''('' @ join '').('' (map (join ''.'') mols) @ '')''"

definition render_transform :: "string list list list \<Rightarrow> string" where
  "render_transform hs = join ''>>'' (map render_half hs)"

definition parse_half :: "string \<Rightarrow> string list list" where
  "parse_half h = map (split_str ''.'') (mols_of h)"

definition sort_frags :: "string list \<Rightarrow> string list" where
  "sort_frags fs = sort_key strip_labels fs"

definition bare_key :: "string list \<Rightarrow> string" where
  "bare_key fs = join ''.'' (map strip_labels fs)"

definition canon_mols :: "string list list \<Rightarrow> string list list" where
  "canon_mols mols = sort_key bare_key (map sort_frags mols)"

definition wf_frag :: "string \<Rightarrow> bool" where
  "wf_frag f \<longleftrightarrow> CHR ''.'' \<notin> set f \<and> CHR ''>'' \<notin> set f \<and> take 1 f \<noteq> ''(''"

definition wf_mols :: "string list list \<Rightarrow> bool" where
  "wf_mols mols \<longleftrightarrow> mols \<noteq> [] \<and> (\<forall>fs\<in>set mols. fs \<noteq> [] \<and> (\<forall>f\<in>set fs. wf_frag f))"

definition wf_halves :: "string list list list \<Rightarrow> bool" where
  "wf_halves hs \<longleftrightarrow> hs \<noteq> [] \<and> (\<forall>mols\<in>set hs. wf_mols mols)"

text \<open>
  The characters that the splitting of a template looks at, the number of dots of a
  text, a token list written out with any text for a label, and the condition that
  these texts are non-empty and free of the characters of the splitting.
\<close>

definition is_struct :: "char \<Rightarrow> bool" where
  "is_struct c \<longleftrightarrow> c = CHR ''.'' \<or> c = CHR ''('' \<or> c = CHR '')''"

definition dots :: "string \<Rightarrow> nat" where
  "dots s = length (filter (\<lambda>c. c = CHR ''.'') s)"

fun render_with :: "(string \<Rightarrow> string) \<Rightarrow> token list \<Rightarrow> string" where
  "render_with r [] = []"
| "render_with r (Chr c # ts) = c # render_with r ts"
| "render_with r (Lab l # ts) = r l @ render_with r ts"

definition plain :: "(string \<Rightarrow> string) \<Rightarrow> token list \<Rightarrow> bool" where
  "plain r ts \<longleftrightarrow> (\<forall>l\<in>set (labels_of ts). r l \<noteq> [] \<and> (\<forall>c\<in>set (r l). \<not> is_struct c))"

section \<open>Molecular Graph View\<close>

text \<open>
  What the source reads from the toolkit's atoms and bonds. A bond carries what
  \<open>bond_to_label\<close> reads from it: atomic number and map number of its two ends and
  its own text. An atom carries the results of its accessors; \<open>map_number\<close> is the
  property \<open>molAtomMapNumber\<close> (\<open>None\<close> when \<open>HasProp\<close> is false), \<open>neighbors\<close>
  the indices of \<open>GetNeighbors()\<close>. A molecule is the list of \<open>GetAtoms()\<close>; the atom
  with index \<open>i\<close> stands at position \<open>i\<close>.
\<close>

record bond =
  begin_atomic_num :: nat
  begin_map :: "string option"
  end_atomic_num :: nat
  end_map :: "string option"
  bond_smarts :: string

record atom =
  idx :: nat
  smarts :: string
  atomic_num :: nat
  total_num_hs :: nat
  formal_charge :: int
  degree :: nat
  num_radical_electrons :: nat
  is_aromatic :: bool
  map_number :: "string option"
  bonds :: "bond list"
  neighbors :: "nat list"

type_synonym mol = "atom list"

text \<open>\<open>mol.GetAtomWithIdx(i)\<close>; the toolkit raises on an index it does not have.\<close>

definition get_atom_with_idx :: "mol \<Rightarrow> nat \<Rightarrow> error + atom" where
  "get_atom_with_idx m i = (if i < length m then Inr (m ! i) else Inl ToolkitError)"

definition bond_to_label :: "bond \<Rightarrow> string" where
  "bond_to_label b =
     (let a1_label = str_nat (begin_atomic_num b)
                       @ (case begin_map b of None \<Rightarrow> [] | Some n \<Rightarrow> n);
          a2_label = str_nat (end_atomic_num b)
                       @ (case end_map b of None \<Rightarrow> [] | Some n \<Rightarrow> n);
          atoms = sort [a1_label, a2_label]
      in atoms ! 0 @ bond_smarts b @ atoms ! 1)"

text \<open>
  \<open>atom.GetSmarts().split(':')[1][:-1]\<close>. The source evaluates it only behind the test
  \<open>':' in atom.GetSmarts()\<close>, where the split has a second piece.
\<close>

definition has_colon :: "string \<Rightarrow> bool" where
  "has_colon s \<longleftrightarrow> CHR '':'' \<in> set s"

definition atom_tag :: "string \<Rightarrow> string" where
  "atom_tag s = (case split_str '':'' s of p # q # qs \<Rightarrow> butlast q | _ \<Rightarrow> [])"

fun get_tagged_atoms_from_mol :: "mol \<Rightarrow> atom list \<times> string list" where
  "get_tagged_atoms_from_mol [] = ([], [])"
| "get_tagged_atoms_from_mol (a # as) =
     (let (atoms, atom_tags) = get_tagged_atoms_from_mol as
      in if has_colon (smarts a) then (a # atoms, atom_tag (smarts a) # atom_tags)
         else (atoms, atom_tags))"

fun get_tagged_atoms_from_mols :: "mol list \<Rightarrow> atom list \<times> string list" where
  "get_tagged_atoms_from_mols [] = ([], [])"
| "get_tagged_atoms_from_mols (m # ms) =
     (let (new_atoms, new_atom_tags) = get_tagged_atoms_from_mol m;
          (atoms, atom_tags) = get_tagged_atoms_from_mols ms
      in (new_atoms @ atoms, new_atom_tags @ atom_tags))"

section \<open>Atom Change Detector\<close>

text \<open>\<open>atoms_are_different\<close> at its default \<open>level = 1\<close>, the only one the source uses.\<close>

definition atoms_are_different :: "atom \<Rightarrow> atom \<Rightarrow> bool" where
  "atoms_are_different atom1 atom2 =
     (if smarts atom1 \<noteq> smarts atom2 then True
      else if atomic_num atom1 \<noteq> atomic_num atom2 then True
      else if total_num_hs atom1 \<noteq> total_num_hs atom2 then True
      else if formal_charge atom1 \<noteq> formal_charge atom2 then True
      else if degree atom1 \<noteq> degree atom2 then True
      else if num_radical_electrons atom1 \<noteq> num_radical_electrons atom2 then True
      else if sort (map bond_to_label (bonds atom1)) \<noteq> sort (map bond_to_label (bonds atom2))
        then True
      else False)"

text \<open>
  The inner loop over the reactant atoms for one product atom; \<open>break\<close> ends it. The
  state is the pair of lists \<open>changed_atoms\<close>, \<open>changed_atom_tags\<close>.
\<close>

fun compare_with_reactants ::
  "atom \<Rightarrow> string \<Rightarrow> string list \<Rightarrow> (atom \<times> string) list
     \<Rightarrow> atom list \<times> string list \<Rightarrow> atom list \<times> string list" where
  "compare_with_reactants prod_atom prod_tag prod_atom_tags [] changed = changed"
| "compare_with_reactants prod_atom prod_tag prod_atom_tags ((reac_atom, reac_tag) # rest)
       (changed_atoms, changed_atom_tags) =
     (if reac_tag \<noteq> prod_tag
      then compare_with_reactants prod_atom prod_tag prod_atom_tags rest
             (changed_atoms, changed_atom_tags)
      else if reac_tag \<notin> set changed_atom_tags
      then (if atoms_are_different prod_atom reac_atom
            then (changed_atoms @ [reac_atom], changed_atom_tags @ [reac_tag])
            else if count_list prod_atom_tags reac_tag > 1
            then (changed_atoms @ [reac_atom], changed_atom_tags @ [reac_tag])
            else compare_with_reactants prod_atom prod_tag prod_atom_tags rest
                   (changed_atoms, changed_atom_tags))
      else compare_with_reactants prod_atom prod_tag prod_atom_tags rest
             (changed_atoms, changed_atom_tags))"

text \<open>The outer loop over the product atoms.\<close>

fun compare_products ::
  "(atom \<times> string) list \<Rightarrow> string list \<Rightarrow> (atom \<times> string) list
     \<Rightarrow> atom list \<times> string list \<Rightarrow> atom list \<times> string list" where
  "compare_products [] prod_atom_tags reac changed = changed"
| "compare_products ((prod_atom, prod_tag) # rest) prod_atom_tags reac changed =
     compare_products rest prod_atom_tags reac
       (compare_with_reactants prod_atom prod_tag prod_atom_tags reac changed)"

text \<open>
  The loop \<open>for j, reac_tag in enumerate(new_atom_tags)\<close> of one reactant molecule that
  is used: \<open>j\<close> counts within the molecule, and the atom appended is \<open>reac_atoms[j]\<close>,
  read from the list of the tagged atoms of all reactants.
\<close>

fun add_leaving_atoms ::
  "atom list \<Rightarrow> string list \<Rightarrow> nat \<Rightarrow> string list
     \<Rightarrow> atom list \<times> string list \<Rightarrow> error + (atom list \<times> string list)" where
  "add_leaving_atoms reac_atoms prod_atom_tags j [] changed = Inr changed"
| "add_leaving_atoms reac_atoms prod_atom_tags j (reac_tag # rest)
       (changed_atoms, changed_atom_tags) =
     (if reac_tag \<notin> set changed_atom_tags \<and> reac_tag \<notin> set prod_atom_tags
      then (if j < length reac_atoms
            then add_leaving_atoms reac_atoms prod_atom_tags (j + 1) rest
                   (changed_atoms @ [reac_atoms ! j], changed_atom_tags @ [reac_tag])
            else Inl IndexError)
      else add_leaving_atoms reac_atoms prod_atom_tags (j + 1) rest
             (changed_atoms, changed_atom_tags))"

text \<open>The loop \<open>for mol in reactants\<close>.\<close>

fun add_leaving_groups ::
  "atom list \<Rightarrow> string list \<Rightarrow> mol list
     \<Rightarrow> atom list \<times> string list \<Rightarrow> error + (atom list \<times> string list)" where
  "add_leaving_groups reac_atoms prod_atom_tags [] changed = Inr changed"
| "add_leaving_groups reac_atoms prod_atom_tags (m # ms) (changed_atoms, changed_atom_tags) =
     (let (new_atoms, new_atom_tags) = get_tagged_atoms_from_mol m;
          use_this_mol = list_ex (\<lambda>reac_tag. reac_tag \<in> set changed_atom_tags) new_atom_tags
      in if use_this_mol
         then (case add_leaving_atoms reac_atoms prod_atom_tags 0 new_atom_tags
                      (changed_atoms, changed_atom_tags) of
                 Inl e \<Rightarrow> Inl e
               | Inr changed \<Rightarrow> add_leaving_groups reac_atoms prod_atom_tags ms changed)
         else add_leaving_groups reac_atoms prod_atom_tags ms (changed_atoms, changed_atom_tags))"

text \<open>\<open>get_changed_atoms\<close>; the third component is \<open>err\<close>, which stays 0.\<close>

definition get_changed_atoms ::
  "mol list \<Rightarrow> mol list \<Rightarrow> error + (atom list \<times> string list \<times> nat)" where
  "get_changed_atoms reactants products =
     (let (prod_atoms, prod_atom_tags) = get_tagged_atoms_from_mols products;
          (reac_atoms, reac_atom_tags) = get_tagged_atoms_from_mols reactants;
          changed = compare_products (zip prod_atoms prod_atom_tags) prod_atom_tags
                      (zip reac_atoms reac_atom_tags) ([], [])
      in case add_leaving_groups reac_atoms prod_atom_tags reactants changed of
           Inl e \<Rightarrow> Inl e
         | Inr (changed_atoms, changed_atom_tags) \<Rightarrow>
             Inr (changed_atoms, changed_atom_tags, 0))"

section \<open>Wildcard Symbol Generator\<close>

text \<open>
  \<open>re.search('([-+]+[1-9]?)', s)\<close>: the leftmost run of sign characters, with one digit
  from 1 to 9 behind it if there is one.
\<close>

definition is_sign :: "char \<Rightarrow> bool" where
  "is_sign c \<longleftrightarrow> c = CHR ''-'' \<or> c = CHR ''+''"

definition search_charges :: "string \<Rightarrow> string option" where
  "search_charges s =
     (let r = dropWhile (\<lambda>c. \<not> is_sign c) s
      in if r = [] then None
         else Some (takeWhile is_sign r
                    @ filter (\<lambda>c. c \<in> set ''123456789'') (take 1 (dropWhile is_sign r))))"

text \<open>
  \<open>convert_atom_to_wildcard\<close>, with the global \<open>SUPER_GENERAL_TEMPLATES\<close> as its first
  argument. \<open>label.group()\<close> on a failed search raises AttributeError.
\<close>

definition convert_atom_to_wildcard :: "bool \<Rightarrow> atom \<Rightarrow> error + string" where
  "convert_atom_to_wildcard super_general a =
     (if super_general \<and> has_colon (smarts a)
      then (case search_label (smarts a) of
              None \<Rightarrow> Inl AttributeError
            | Some label \<Rightarrow> Inr (''[*'' @ label))
      else if \<not> super_general \<and> degree a = 1
      then Inr (smarts a)
      else
        (let symbol0 = ''['';
             symbol1 = (if atomic_num a \<noteq> 6 then symbol0 @ ''#'' @ str_nat (atomic_num a) @ '';''
                        else if is_aromatic a then symbol0 @ ''c;''
                        else symbol0 @ ''C;'');
             symbol2 = (if \<not> super_general \<and> formal_charge a \<noteq> 0
                        then (case search_charges (smarts a) of
                                None \<Rightarrow> symbol1
                              | Some charges \<Rightarrow> symbol1 @ charges @ '';'')
                        else symbol1);
             symbol3 = (if last symbol2 = CHR '';'' then butlast symbol2 else symbol2)
         in case search_label (smarts a) of
              Some label \<Rightarrow> Inr (symbol3 @ label)
            | None \<Rightarrow> Inr (symbol3 @ '']'')))"

section \<open>Neighborhood Expander\<close>

text \<open>
  The catalog of \<open>get_special_groups\<close>, and the function itself. The substructure
  matcher of the toolkit (\<open>mol.GetSubstructMatches(Chem.MolFromSmarts(template))\<close>) is a
  parameter.
\<close>

definition group_templates :: "string list" where
  "group_templates =
     [''C(=O)Cl'', ''C(=O)[O;H,-]'', ''[$(S-!@[#6])](=O)(=O)(Cl)'', ''[$(B-!@[#6])](O)(O)'',
      ''[$(N-!@[#6])](=!@C=!@O)'', ''[N;H0;$(N-[#6]);D2]=[N;D2]=[N;D1]'',
      ''O=C1N(Br)C(=O)CC1'', ''C=O'', ''ClS(Cl)=O'', ''[Mg][Br,Cl]'',
      ''[#6]S(=O)(=O)[O]'', ''[O]S(=O)(=O)[O]'', ''[N-]=[N+]=[C]'']"

definition get_special_groups ::
  "(mol \<Rightarrow> string \<Rightarrow> nat list list) \<Rightarrow> bool \<Rightarrow> mol \<Rightarrow> nat list list" where
  "get_special_groups substruct_matches super_general m =
     (if super_general then []
      else concat (map (substruct_matches m) group_templates))"

text \<open>
  \<open>expand_atoms_to_use_atom\<close>. The lists \<open>atoms_to_use\<close> and \<open>symbol_replacements\<close> are
  changed in place and returned; the model passes them through.
\<close>

definition expand_atoms_to_use_atom ::
  "bool \<Rightarrow> mol \<Rightarrow> nat list \<Rightarrow> nat \<Rightarrow> nat list list \<Rightarrow> (nat \<times> string) list
     \<Rightarrow> error + (nat list \<times> (nat \<times> string) list)" where
  "expand_atoms_to_use_atom super_general m atoms_to_use atom_idx groups symbol_replacements =
     (if atom_idx \<in> set atoms_to_use then Inr (atoms_to_use, symbol_replacements)
      else if list_ex (\<lambda>group. atom_idx \<in> set group) groups
      then Inr (atoms_to_use @ concat (filter (\<lambda>group. atom_idx \<in> set group) groups),
                symbol_replacements)
      else (case get_atom_with_idx m atom_idx of
              Inl e \<Rightarrow> Inl e
            | Inr a \<Rightarrow>
                (case convert_atom_to_wildcard super_general a of
                   Inl e \<Rightarrow> Inl e
                 | Inr symbol \<Rightarrow>
                     Inr (atoms_to_use @ [atom_idx],
                          symbol_replacements @ [(atom_idx, symbol)]))))"

text \<open>The loop over the neighbors of one atom, and the loop over the atoms.\<close>

fun expand_neighbors ::
  "bool \<Rightarrow> mol \<Rightarrow> nat list \<Rightarrow> nat list list \<Rightarrow> nat list \<times> (nat \<times> string) list
     \<Rightarrow> error + (nat list \<times> (nat \<times> string) list)" where
  "expand_neighbors super_general m [] groups state = Inr state"
| "expand_neighbors super_general m (n # ns) groups (new_atoms_to_use, symbol_replacements) =
     (case expand_atoms_to_use_atom super_general m new_atoms_to_use n groups
             symbol_replacements of
        Inl e \<Rightarrow> Inl e
      | Inr state \<Rightarrow> expand_neighbors super_general m ns groups state)"

fun expand_atoms ::
  "bool \<Rightarrow> mol \<Rightarrow> atom list \<Rightarrow> nat list \<Rightarrow> nat list list
     \<Rightarrow> nat list \<times> (nat \<times> string) list \<Rightarrow> error + (nat list \<times> (nat \<times> string) list)" where
  "expand_atoms super_general m [] atoms_to_use groups state = Inr state"
| "expand_atoms super_general m (a # as) atoms_to_use groups state =
     (if idx a \<notin> set atoms_to_use
      then expand_atoms super_general m as atoms_to_use groups state
      else (case expand_neighbors super_general m (neighbors a) groups state of
              Inl e \<Rightarrow> Inl e
            | Inr state' \<Rightarrow> expand_atoms super_general m as atoms_to_use groups state'))"

definition expand_atoms_to_use ::
  "bool \<Rightarrow> mol \<Rightarrow> nat list \<Rightarrow> nat list list \<Rightarrow> (nat \<times> string) list
     \<Rightarrow> error + (nat list \<times> (nat \<times> string) list)" where
  "expand_atoms_to_use super_general m atoms_to_use groups symbol_replacements =
     expand_atoms super_general m m atoms_to_use groups (atoms_to_use, symbol_replacements)"

text \<open>
  Every atom index in the working set that was not in the starting set has a wildcard
  override in the list of symbol replacements (the wildcard of super-general mode).
\<close>

definition overridden ::
  "mol \<Rightarrow> nat list \<Rightarrow> nat list \<times> (nat \<times> string) list \<Rightarrow> bool" where
  "overridden m atoms0 state \<longleftrightarrow>
     (\<forall>i\<in>set (fst state) - set atoms0.
        \<exists>a w. get_atom_with_idx m i = Inr a \<and> convert_atom_to_wildcard True a = Inr w
             \<and> (i, w) \<in> set (snd state))"

section \<open>Fragment Selector\<close>

text \<open>
  The toolkit calls of the driver are parameters: the first \<open>try\<close> block of \<open>main\<close>
  (splitting the line, \<open>MolFromSmiles\<close>, \<open>SanitizeMol\<close>; any exception there is one
  error value, and the molecules it returns are sanitized, none of them \<open>None\<close>), the
  substructure matcher, \<open>MolFragmentToSmiles\<close>, \<open>ReactionFromSmarts\<close> with the error
  count of \<open>Validate\<close>, and \<open>reaction_fid.tell()\<close> after the record with a given index.
\<close>

record toolkit =
  unpack :: "string \<Rightarrow> error + (mol list \<times> mol list \<times> mol list)"
  substruct_matches :: "mol \<Rightarrow> string \<Rightarrow> nat list list"
  mol_fragment_to_smiles :: "mol \<Rightarrow> nat list \<Rightarrow> string list \<Rightarrow> error + string"
  validate :: "string \<Rightarrow> error + nat"
  tell :: "nat \<Rightarrow> nat"

datatype category = Reactants | Products

text \<open>\<open>s.replace(old, new)\<close> for a non-empty \<open>old\<close>: cut at every occurrence from the
  left, join with \<open>new\<close>.\<close>

definition replace_str :: "string \<Rightarrow> string \<Rightarrow> string \<Rightarrow> string" where
  "replace_str old new s = join new (split_str old s)"

text \<open>The custom symbol of a changed atom: explicit \<open>H0\<close> and \<open>+0\<close>.\<close>

definition custom_symbol :: "atom \<Rightarrow> string" where
  "custom_symbol a =
     (let symbol0 = smarts a;
          symbol1 = (if total_num_hs a = 0
                     then (if has_colon symbol0 then replace_str '':'' '';H0:'' symbol0
                           else replace_str '']'' '';H0]'' symbol0)
                     else symbol0);
          symbol2 = (if formal_charge a = 0
                     then (if has_colon symbol1 then replace_str '':'' '';+0:'' symbol1
                           else replace_str '']'' '';+0]'' symbol1)
                     else symbol1)
      in symbol2)"

text \<open>The first loop over the atoms of a molecule: the changed atoms themselves.\<close>

fun seed_atoms ::
  "atom list \<Rightarrow> string list \<Rightarrow> nat list \<times> (nat \<times> string) list
     \<Rightarrow> nat list \<times> (nat \<times> string) list" where
  "seed_atoms [] changed_atom_tags state = state"
| "seed_atoms (a # as) changed_atom_tags (atoms_to_use, symbol_replacements) =
     (if has_colon (smarts a) \<and> atom_tag (smarts a) \<in> set changed_atom_tags
      then seed_atoms as changed_atom_tags
             (atoms_to_use @ [idx a],
              if custom_symbol a \<noteq> smarts a
              then symbol_replacements @ [(idx a, custom_symbol a)]
              else symbol_replacements)
      else seed_atoms as changed_atom_tags (atoms_to_use, symbol_replacements))"

text \<open>\<open>for k in range(radius)\<close>: one call of \<open>expand_atoms_to_use\<close> per round.\<close>

fun expand_hops ::
  "bool \<Rightarrow> mol \<Rightarrow> nat list list \<Rightarrow> nat \<Rightarrow> nat list \<times> (nat \<times> string) list
     \<Rightarrow> error + (nat list \<times> (nat \<times> string) list)" where
  "expand_hops super_general m groups 0 state = Inr state"
| "expand_hops super_general m groups (Suc k) (atoms_to_use, symbol_replacements) =
     (case expand_atoms_to_use super_general m atoms_to_use groups symbol_replacements of
        Inl e \<Rightarrow> Inl e
      | Inr state \<Rightarrow> expand_hops super_general m groups k state)"

text \<open>Products only: the extra labels of the expansion, as wildcards.\<close>

fun add_expansion ::
  "bool \<Rightarrow> atom list \<Rightarrow> string list \<Rightarrow> string list \<Rightarrow> nat list \<times> (nat \<times> string) list
     \<Rightarrow> error + (nat list \<times> (nat \<times> string) list)" where
  "add_expansion super_general [] expansion changed_atom_tags state = Inr state"
| "add_expansion super_general (a # as) expansion changed_atom_tags
       (atoms_to_use, symbol_replacements) =
     (if \<not> has_colon (smarts a)
      then add_expansion super_general as expansion changed_atom_tags
             (atoms_to_use, symbol_replacements)
      else if atom_tag (smarts a) \<in> set expansion \<and> atom_tag (smarts a) \<notin> set changed_atom_tags
      then (case convert_atom_to_wildcard super_general a of
              Inl e \<Rightarrow> Inl e
            | Inr symbol \<Rightarrow>
                add_expansion super_general as expansion changed_atom_tags
                  (atoms_to_use @ [idx a], symbol_replacements @ [(idx a, symbol)]))
      else add_expansion super_general as expansion changed_atom_tags
             (atoms_to_use, symbol_replacements))"

text \<open>Products only: the atoms without map number.\<close>

definition add_unmapped :: "mol \<Rightarrow> nat list \<Rightarrow> nat list" where
  "add_unmapped m atoms_to_use =
     atoms_to_use @ map idx (filter (\<lambda>a. map_number a = None) m)"

text \<open>\<open>symbols[i] = symbol\<close> for every replacement, in order.\<close>

fun apply_replacements :: "string list \<Rightarrow> (nat \<times> string) list \<Rightarrow> error + string list" where
  "apply_replacements symbols [] = Inr symbols"
| "apply_replacements symbols ((i, symbol) # rest) =
     (if i < length symbols then apply_replacements (symbols[i := symbol]) rest
      else Inl IndexError)"

text \<open>
  The body of the loop over the molecules, up to the test \<open>if not atoms_to_use\<close>: the
  atom indices and the symbols handed to the serializer.
\<close>

definition select_atoms ::
  "toolkit \<Rightarrow> bool \<Rightarrow> mol \<Rightarrow> string list \<Rightarrow> nat \<Rightarrow> category \<Rightarrow> string list
     \<Rightarrow> error + (nat list \<times> string list)" where
  "select_atoms tk super_general m changed_atom_tags radius cat expansion =
     (let groups = (case cat of
                      Reactants \<Rightarrow> get_special_groups (substruct_matches tk) super_general m
                    | Products \<Rightarrow> [])
      in case expand_hops super_general m groups radius (seed_atoms m changed_atom_tags ([], [])) of
           Inl e \<Rightarrow> Inl e
         | Inr (atoms_to_use, symbol_replacements) \<Rightarrow>
             (case (case cat of
                      Reactants \<Rightarrow> Inr (atoms_to_use, symbol_replacements)
                    | Products \<Rightarrow>
                        (case (if expansion \<noteq> []
                               then add_expansion super_general m expansion changed_atom_tags
                                      (atoms_to_use, symbol_replacements)
                               else Inr (atoms_to_use, symbol_replacements)) of
                           Inl e \<Rightarrow> Inl e
                         | Inr (atoms_to_use', symbol_replacements') \<Rightarrow>
                             Inr (add_unmapped m atoms_to_use', symbol_replacements'))) of
                Inl e \<Rightarrow> Inl e
              | Inr (atoms_to_use'', symbol_replacements'') \<Rightarrow>
                  (case apply_replacements (map smarts m) symbol_replacements'' of
                     Inl e \<Rightarrow> Inl e
                   | Inr symbols \<Rightarrow> Inr (atoms_to_use'', symbols))))"

text \<open>
  The loop over the molecules: a molecule without atoms to use is skipped; the map
  numbers are cleared before the serializer is called.
\<close>

fun collect_fragments ::
  "toolkit \<Rightarrow> bool \<Rightarrow> mol list \<Rightarrow> string list \<Rightarrow> nat \<Rightarrow> category \<Rightarrow> string list
     \<Rightarrow> string \<Rightarrow> error + string" where
  "collect_fragments tk super_general [] changed_atom_tags radius cat expansion fragments =
     Inr fragments"
| "collect_fragments tk super_general (m # ms) changed_atom_tags radius cat expansion fragments =
     (case select_atoms tk super_general m changed_atom_tags radius cat expansion of
        Inl e \<Rightarrow> Inl e
      | Inr (atoms_to_use, symbols) \<Rightarrow>
          (if atoms_to_use = []
           then collect_fragments tk super_general ms changed_atom_tags radius cat expansion
                  fragments
           else (case mol_fragment_to_smiles tk (map (\<lambda>a. a\<lparr>map_number := None\<rparr>) m)
                        atoms_to_use symbols of
                   Inl e \<Rightarrow> Inl e
                 | Inr text \<Rightarrow>
                     collect_fragments tk super_general ms changed_atom_tags radius cat
                       expansion (fragments @ ''('' @ text @ '').''))))"

definition get_fragments_for_changed_atoms ::
  "toolkit \<Rightarrow> bool \<Rightarrow> mol list \<Rightarrow> string list \<Rightarrow> nat \<Rightarrow> category \<Rightarrow> string list
     \<Rightarrow> error + string" where
  "get_fragments_for_changed_atoms tk super_general mols changed_atom_tags radius cat expansion =
     (case collect_fragments tk super_general mols changed_atom_tags radius cat expansion [] of
        Inl e \<Rightarrow> Inl e
      | Inr fragments \<Rightarrow> Inr (butlast fragments))"

text \<open>
  \<open>re.findall('\:([[0-9]+)\]', s)\<close>: the character class of this pattern holds the
  opening bracket as well as the digits.
\<close>

definition is_tag_char :: "char \<Rightarrow> bool" where
  "is_tag_char c \<longleftrightarrow> c = CHR ''['' \<or> is_digit c"

function findall_tags :: "string \<Rightarrow> string list" where
  "findall_tags [] = []"
| "findall_tags (c # cs) =
     (if c = CHR '':'' \<and> takeWhile is_tag_char cs \<noteq> []
         \<and> take 1 (dropWhile is_tag_char cs) = '']''
      then takeWhile is_tag_char cs # findall_tags (tl (dropWhile is_tag_char cs))
      else findall_tags cs)"
  by pat_completeness auto
termination
proof (relation "measure length")
  fix c :: char and cs :: string
  have "length (dropWhile is_tag_char cs) \<le> length cs"
    by (rule length_dropWhile_le)
  then have "length (tl (dropWhile is_tag_char cs)) \<le> length cs"
    by simp
  then show "(tl (dropWhile is_tag_char cs), c # cs) \<in> measure length"
    by simp
qed auto

definition expand_changed_atom_tags :: "string list \<Rightarrow> string \<Rightarrow> string list" where
  "expand_changed_atom_tags changed_atom_tags reactant_fragments =
     filter (\<lambda>atom_tag. atom_tag \<notin> set changed_atom_tags) (findall_tags reactant_fragments)"

section \<open>Retro Converter\<close>

definition convert_to_retro :: "string \<Rightarrow> error + string" where
  "convert_to_retro transform =
     (case split_str ''>>'' transform of
        reactants # products # rest \<Rightarrow>
          Inr (replace_str '').('' ''.'' (slice_inner products) @ ''>>''
               @ replace_str '').('' ''.'' (slice_inner reactants))
      | _ \<Rightarrow> Inl IndexError)"

section \<open>Template Aggregator and Scan Driver\<close>

text \<open>
  The state of a scan: the frequency table (the global \<open>template_dict\<close>, a
  \<open>defaultdict(int)\<close>), the six counters of \<open>main\<close>, and the writes to the two
  checkpoint files in the order they happen. A write is recorded with the index \<open>i\<close>
  of the record at which it happens and with what is written.
\<close>

datatype event = WriteTable nat "(string \<times> nat) list" | WriteCursor nat nat

record scan_state =
  template_dict :: "(string \<times> nat) list"
  total_attempted :: nat
  total_correct :: nat
  total_precise :: nat
  total_unmapped :: nat
  total_partialmapped :: nat
  total_nonreaction :: nat
  written :: "event list"

text \<open>\<open>template_dict[key] += 1\<close>.\<close>

fun increment :: "string \<Rightarrow> (string \<times> nat) list \<Rightarrow> (string \<times> nat) list" where
  "increment key [] = [(key, 1)]"
| "increment key ((k, n) # d) = (if k = key then (k, n + 1) # d else (k, n) # increment key d)"

text \<open>
  How the body of the loop ends for one record, up to the progress report: with an
  exception that leaves \<open>main\<close> (both \<open>except\<close> blocks start with \<open>raise(e)\<close>), with
  \<open>continue\<close>, or at the end of the second \<open>try\<close> block.
\<close>

datatype outcome = Raised error | Skipped scan_state | Recorded scan_state

text \<open>\<open>SUPER_GENERAL_TEMPLATES = True\<close>, set before \<open>main\<close> is called.\<close>

definition SUPER_GENERAL_TEMPLATES :: bool where
  "SUPER_GENERAL_TEMPLATES = True"

text \<open>
  The body of the loop for one record. The test \<open>None in reactants + products\<close> has no
  branch here: a molecule that is \<open>None\<close> makes \<open>SanitizeMol\<close> raise in the first
  \<open>try\<close> block. Printing is left out, and the run is not verbose.
\<close>

definition not_fully_mapped :: "mol \<Rightarrow> bool" where
  "not_fully_mapped product \<longleftrightarrow>
     length (filter (\<lambda>a. map_number a \<noteq> None) product) < length product"

definition process_record :: "toolkit \<Rightarrow> scan_state \<Rightarrow> string \<Rightarrow> outcome" where
  "process_record tk st line =
     (case unpack tk line of
        Inl e \<Rightarrow> Raised e
      | Inr (reactants, agents, products) \<Rightarrow>
          if list_ex not_fully_mapped products
          then Skipped (st\<lparr>total_partialmapped := total_partialmapped st + 1\<rparr>)
          else
            (case get_changed_atoms reactants products of
               Inl e \<Rightarrow> Raised e
             | Inr (changed_atoms, changed_atom_tags, err) \<Rightarrow>
                 if err \<noteq> 0 then Skipped st
                 else if changed_atom_tags = [] then Skipped st
                 else
                   (case get_fragments_for_changed_atoms tk SUPER_GENERAL_TEMPLATES reactants
                           changed_atom_tags 1 Reactants [] of
                      Inl e \<Rightarrow> Raised e
                    | Inr reactant_fragments \<Rightarrow>
                        (case get_fragments_for_changed_atoms tk SUPER_GENERAL_TEMPLATES products
                                changed_atom_tags 0 Products
                                (expand_changed_atom_tags changed_atom_tags reactant_fragments) of
                           Inl e \<Rightarrow> Raised e
                         | Inr product_fragments \<Rightarrow>
                             (case validate tk (reactant_fragments @ ''>>'' @ product_fragments) of
                                Inl e \<Rightarrow> Raised e
                              | Inr errors \<Rightarrow>
                                  if errors \<noteq> 0 then Skipped st
                                  else
                                    (case canonicalize_transform
                                            (reactant_fragments @ ''>>'' @ product_fragments) of
                                       Inl e \<Rightarrow> Raised e
                                     | Inr rxn_canonical \<Rightarrow>
                                         (case convert_to_retro rxn_canonical of
                                            Inl e \<Rightarrow> Raised e
                                          | Inr retro_canonical \<Rightarrow>
                                              Recorded
                                                (st\<lparr>template_dict :=
                                                       increment retro_canonical (template_dict st),
                                                     total_attempted := total_attempted st + 1\<rparr>))))))))"

text \<open>\<open>if (i % 10000) == 0\<close>: the table is written, then the cursor.\<close>

definition checkpoint :: "toolkit \<Rightarrow> nat \<Rightarrow> scan_state \<Rightarrow> scan_state" where
  "checkpoint tk i st =
     (if i mod 10000 = 0
      then st\<lparr>written := written st @ [WriteTable i (template_dict st)]
                                    @ [WriteCursor i (tell tk i)]\<rparr>
      else st)"

text \<open>
  The loop \<open>for line in reaction_fid\<close> from the record with index \<open>i\<close> on. It returns
  the state it ends in and the exception that ended it, if one did.
\<close>

fun scan :: "toolkit \<Rightarrow> nat \<Rightarrow> string list \<Rightarrow> scan_state \<Rightarrow> scan_state \<times> error option" where
  "scan tk i [] st = (st, None)"
| "scan tk i (line # rest) st =
     (case process_record tk st line of
        Raised e \<Rightarrow> (st, Some e)
      | Skipped st' \<Rightarrow> scan tk (i + 1) rest st'
      | Recorded st' \<Rightarrow> scan tk (i + 1) rest (checkpoint tk i st'))"

text \<open>
  \<open>main\<close>: the loop from the first record on, then the report. The report divides by
  \<open>total_examples = i + 1\<close>, the number of records read: with none, the first of its
  divisions raises \<open>ZeroDivisionError\<close>. Printing is left out.
\<close>

definition main :: "toolkit \<Rightarrow> string list \<Rightarrow> scan_state \<Rightarrow> scan_state \<times> error option" where
  "main tk lines st =
     (case scan tk 0 lines st of
        (st', Some e) \<Rightarrow> (st', Some e)
      | (st', None) \<Rightarrow>
          (let total_examples = length lines
           in if total_examples = 0 then (st', Some ZeroDivisionError) else (st', None)))"

text \<open>
  The end of the second \<open>try\<close> block once more, on its own: what happens to the
  transform text \<open>rxn_string\<close> from \<open>ReactionFromSmarts\<close> to the increment of the table.
\<close>

definition record_transform :: "toolkit \<Rightarrow> scan_state \<Rightarrow> string \<Rightarrow> outcome" where
  "record_transform tk st rxn_string =
     (case validate tk rxn_string of
        Inl e \<Rightarrow> Raised e
      | Inr errors \<Rightarrow>
          if errors \<noteq> 0 then Skipped st
          else
            (case canonicalize_transform rxn_string of
               Inl e \<Rightarrow> Raised e
             | Inr rxn_canonical \<Rightarrow>
                 (case convert_to_retro rxn_canonical of
                    Inl e \<Rightarrow> Raised e
                  | Inr retro_canonical \<Rightarrow>
                      Recorded
                        (st\<lparr>template_dict := increment retro_canonical (template_dict st),
                             total_attempted := total_attempted st + 1\<rparr>))))"

section \<open>The corpus file\<close>

text \<open>
  The source is Python 2 (it imports \<open>cPickle\<close> and calls \<open>raw_input\<close>), and
  \<open>reaction_fid\<close> is a file object of Python 2, read by \<open>for line in reaction_fid\<close>.
  The iterator of such a file fills a read-ahead buffer from the file, 8192 bytes at a
  time, and cuts the lines from the buffer; when the buffer holds no end of line, it is
  handed out as the start of the line and the next block asked for is a quarter larger.
  \<open>tell()\<close> reports the position of the file itself, which is the end of the last block
  read into the buffer and not the end of the last line handed out; \<open>seek\<close> sets the
  position and drops the buffer.

  A file object is the content of the file, the position in it, and the part of the
  read-ahead buffer that has not been handed out.
\<close>

record file_object =
  content :: string
  position :: nat
  readahead :: string

definition newline :: char where
  "newline = CHR 0x0A"

definition READAHEAD_BUFSIZE :: nat where
  "READAHEAD_BUFSIZE = 8192"

text \<open>\<open>open(infile)\<close>, \<open>reaction_fid.seek(filepos)\<close> and \<open>reaction_fid.tell()\<close>.\<close>

definition open_file :: "string \<Rightarrow> file_object" where
  "open_file infile = \<lparr>content = infile, position = 0, readahead = []\<rparr>"

definition seek :: "file_object \<Rightarrow> nat \<Rightarrow> file_object" where
  "seek f filepos = f\<lparr>position := filepos, readahead := []\<rparr>"

definition tell_file :: "file_object \<Rightarrow> nat" where
  "tell_file f = position f"

text \<open>A buffer with nothing left in it is filled with the next block of the file.\<close>

definition fill :: "nat \<Rightarrow> file_object \<Rightarrow> file_object" where
  "fill bufsize f =
     (if readahead f \<noteq> [] then f
      else f\<lparr>position := position f + length (take bufsize (drop (position f) (content f))),
             readahead := take bufsize (drop (position f) (content f))\<rparr>)"

text \<open>The bytes of the file that no line has handed out yet.\<close>

definition remaining :: "file_object \<Rightarrow> nat" where
  "remaining f = length (readahead f) + length (drop (position f) (content f))"

text \<open>
  One line from the buffer: up to and with the end of line when the buffer has one, the
  whole buffer and what a larger next block brings otherwise. The empty line is the
  end of the file.
\<close>

function get_line :: "nat \<Rightarrow> file_object \<Rightarrow> string \<times> file_object" where
  "get_line bufsize f =
     (if readahead (fill bufsize f) = [] then ([], fill bufsize f)
      else if newline \<in> set (readahead (fill bufsize f))
      then (takeWhile (\<lambda>c. c \<noteq> newline) (readahead (fill bufsize f)) @ [newline],
            (fill bufsize f)\<lparr>readahead :=
               tl (dropWhile (\<lambda>c. c \<noteq> newline) (readahead (fill bufsize f)))\<rparr>)
      else (case get_line (bufsize + bufsize div 4) ((fill bufsize f)\<lparr>readahead := []\<rparr>) of
              (rest, f') \<Rightarrow> (readahead (fill bufsize f) @ rest, f')))"
  by pat_completeness auto
termination
proof (relation "measure (\<lambda>(bufsize, f). remaining f)")
  fix bufsize :: nat and f :: file_object
  assume buf: "readahead (fill bufsize f) \<noteq> []"
  have "remaining (fill bufsize f) = remaining f"
    by (auto simp: fill_def remaining_def min_def)
  moreover have "remaining ((fill bufsize f)\<lparr>readahead := []\<rparr>) < remaining (fill bufsize f)"
    using buf by (simp add: remaining_def)
  ultimately show "((bufsize + bufsize div 4, (fill bufsize f)\<lparr>readahead := []\<rparr>), (bufsize, f))
      \<in> measure (\<lambda>(bufsize, f). remaining f)"
    by simp
qed simp

declare get_line.simps [simp del]

text \<open>\<open>next()\<close> of the file object; \<open>None\<close> is \<open>StopIteration\<close>.\<close>

definition next_line :: "file_object \<Rightarrow> (string \<times> file_object) option" where
  "next_line f =
     (case get_line READAHEAD_BUFSIZE f of
        (line, f') \<Rightarrow> if line = [] then None else Some (line, f'))"

text \<open>
  The header of the loop, \<open>for line in reaction_fid\<close>: the lines the iterator hands
  out, each with what \<open>tell()\<close> reports in the body of its round.
\<close>

function read_records :: "file_object \<Rightarrow> (string \<times> nat) list" where
  "read_records f =
     (case next_line f of
        None \<Rightarrow> []
      | Some (line, f') \<Rightarrow> (line, tell_file f') # read_records f')"
  by pat_completeness auto

text \<open>The counters at 0 and nothing written yet, with a given table.\<close>

definition initial_state :: "(string \<times> nat) list \<Rightarrow> scan_state" where
  "initial_state d =
     \<lparr>template_dict = d, total_attempted = 0, total_correct = 0, total_precise = 0,
      total_unmapped = 0, total_partialmapped = 0, total_nonreaction = 0, written = []\<rparr>"

text \<open>
  \<open>main\<close> on a file object: the records are the lines of the file, and \<open>tell()\<close> at the
  record with index \<open>i\<close> is what the file object reports there.
\<close>

definition main_on :: "toolkit \<Rightarrow> file_object \<Rightarrow> scan_state \<Rightarrow> scan_state \<times> error option" where
  "main_on tk reaction_fid st =
     main (tk\<lparr>tell := (\<lambda>i. case drop i (read_records reaction_fid) of
                                (line, p) # rest \<Rightarrow> p
                              | [] \<Rightarrow> tell tk i)\<rparr>)
       (map fst (read_records reaction_fid)) st"

text \<open>
  The start of the program. When the table file is there, the table and the cursor are
  loaded from the two checkpoint files; otherwise the table is empty and the cursor 0.
  The corpus is opened, set to the cursor, and scanned.
\<close>

definition start ::
  "toolkit \<Rightarrow> string \<Rightarrow> ((string \<times> nat) list \<times> nat) option \<Rightarrow> scan_state \<times> error option" where
  "start tk infile checkpoint_files =
     (case (case checkpoint_files of
              Some (template_dict0, filepos) \<Rightarrow> (template_dict0, filepos)
            | None \<Rightarrow> ([], 0)) of
        (template_dict0, filepos) \<Rightarrow>
          main_on tk (seek (open_file infile) filepos) (initial_state template_dict0))"

text \<open>
  The shape of a checkpoint log: table write and cursor write in pairs, the two of a
  pair at the same record, the records of the pairs ascending from a lower bound.
\<close>

fun paired_from :: "nat \<Rightarrow> event list \<Rightarrow> bool" where
  "paired_from lo [] = True"
| "paired_from lo (WriteTable i d # WriteCursor j p # es) = (lo \<le> i \<and> j = i \<and> paired_from (Suc i) es)"
| "paired_from lo [e] = False"
| "paired_from lo (WriteCursor i p # e # es) = False"
| "paired_from lo (WriteTable i d # WriteTable j d' # es) = False"

text \<open>The table written at record \<open>j\<close> is the table after the records up to \<open>j\<close>.\<close>

fun snapshots_from :: "toolkit \<Rightarrow> nat \<Rightarrow> string list \<Rightarrow> scan_state \<Rightarrow> event list \<Rightarrow> bool" where
  "snapshots_from tk i lines st [] = True"
| "snapshots_from tk i lines st (WriteTable j d # es) =
     (i \<le> j \<and> d = template_dict (fst (scan tk i (take (Suc (j - i)) lines) st))
      \<and> snapshots_from tk i lines st es)"
| "snapshots_from tk i lines st (WriteCursor j p # es) =
     (p = tell tk j \<and> snapshots_from tk i lines st es)"

section \<open>Fragment extraction without a radius\<close>

text \<open>
  For comparison with the driver, the selection of atoms said without a radius. On the
  reactant side the Neighborhood Expander is run exactly once over the changed atoms,
  with the special groups of the molecule. On the product side it is not run: the
  changed atoms, then the extra labels as wildcards and the atoms without map number.
\<close>

definition one_hop_selection ::
  "toolkit \<Rightarrow> bool \<Rightarrow> string list \<Rightarrow> mol \<Rightarrow> error + (nat list \<times> string list)" where
  "one_hop_selection tk super_general changed_atom_tags m =
     (case seed_atoms m changed_atom_tags ([], []) of
        (seeds, seed_symbols) \<Rightarrow>
          (case expand_atoms_to_use super_general m seeds
                  (get_special_groups (substruct_matches tk) super_general m) seed_symbols of
             Inl e \<Rightarrow> Inl e
           | Inr (atoms_to_use, symbol_replacements) \<Rightarrow>
               (case apply_replacements (map smarts m) symbol_replacements of
                  Inl e \<Rightarrow> Inl e
                | Inr symbols \<Rightarrow> Inr (atoms_to_use, symbols))))"

definition no_hop_selection ::
  "bool \<Rightarrow> string list \<Rightarrow> string list \<Rightarrow> mol \<Rightarrow> error + (nat list \<times> string list)" where
  "no_hop_selection super_general changed_atom_tags expansion m =
     (case (if expansion \<noteq> []
            then add_expansion super_general m expansion changed_atom_tags
                   (seed_atoms m changed_atom_tags ([], []))
            else Inr (seed_atoms m changed_atom_tags ([], []))) of
        Inl e \<Rightarrow> Inl e
      | Inr (atoms_to_use, symbol_replacements) \<Rightarrow>
          (case apply_replacements (map smarts m) symbol_replacements of
             Inl e \<Rightarrow> Inl e
           | Inr symbols \<Rightarrow> Inr (add_unmapped m atoms_to_use, symbols)))"

text \<open>
  The fragment text of a list of molecules for a given selection: every molecule with
  atoms selected is serialized, without its map numbers, between parentheses; the
  pieces are joined with dots.
\<close>

fun selected_fragments ::
  "toolkit \<Rightarrow> (mol \<Rightarrow> error + (nat list \<times> string list)) \<Rightarrow> mol list \<Rightarrow> error + string list" where
  "selected_fragments tk selection [] = Inr []"
| "selected_fragments tk selection (m # ms) =
     (case selection m of
        Inl e \<Rightarrow> Inl e
      | Inr (atoms_to_use, symbols) \<Rightarrow>
          if atoms_to_use = []
          then selected_fragments tk selection ms
          else (case mol_fragment_to_smiles tk (map (\<lambda>a. a\<lparr>map_number := None\<rparr>) m)
                       atoms_to_use symbols of
                  Inl e \<Rightarrow> Inl e
                | Inr text \<Rightarrow>
                    (case selected_fragments tk selection ms of
                       Inl e \<Rightarrow> Inl e
                     | Inr texts \<Rightarrow> Inr ((''('' @ text @ '')'') # texts))))"

definition fragment_text ::
  "toolkit \<Rightarrow> (mol \<Rightarrow> error + (nat list \<times> string list)) \<Rightarrow> mol list \<Rightarrow> error + string" where
  "fragment_text tk selection mols =
     (case selected_fragments tk selection mols of
        Inl e \<Rightarrow> Inl e
      | Inr texts \<Rightarrow> Inr (join ''.'' texts))"

section \<open>Example molecules\<close>

text \<open>
  The atoms of the reaction \<open>[OH2:1].[CH3:2][Cl:3]>>[OH2:1].[CH4:2]\<close> as the toolkit
  presents them: water is a mapped spectator, chloromethane loses its chlorine. The
  text of a single bond is empty.
\<close>

definition c_cl_bond :: bond where
  "c_cl_bond = \<lparr>begin_atomic_num = 6, begin_map = Some ''2'',
                 end_atomic_num = 17, end_map = Some ''3'', bond_smarts = []\<rparr>"

definition water_o :: atom where
  "water_o = \<lparr>idx = 0, smarts = ''[OH2:1]'', atomic_num = 8, total_num_hs = 2,
               formal_charge = 0, degree = 0, num_radical_electrons = 0,
               is_aromatic = False, map_number = Some ''1'', bonds = [], neighbors = []\<rparr>"

definition methyl_c :: atom where
  "methyl_c = \<lparr>idx = 0, smarts = ''[CH3:2]'', atomic_num = 6, total_num_hs = 3,
                formal_charge = 0, degree = 1, num_radical_electrons = 0,
                is_aromatic = False, map_number = Some ''2'', bonds = [c_cl_bond],
                neighbors = [1]\<rparr>"

definition chlorine :: atom where
  "chlorine = \<lparr>idx = 1, smarts = ''[Cl:3]'', atomic_num = 17, total_num_hs = 0,
                formal_charge = 0, degree = 1, num_radical_electrons = 0,
                is_aromatic = False, map_number = Some ''3'', bonds = [c_cl_bond],
                neighbors = [0]\<rparr>"

definition methane_c :: atom where
  "methane_c = \<lparr>idx = 0, smarts = ''[CH4:2]'', atomic_num = 6, total_num_hs = 4,
                 formal_charge = 0, degree = 0, num_radical_electrons = 0,
                 is_aromatic = False, map_number = Some ''2'', bonds = [], neighbors = []\<rparr>"

definition example_reactants :: "mol list" where
  "example_reactants = [[water_o], [methyl_c, chlorine]]"

definition example_products :: "mol list" where
  "example_products = [[water_o], [methane_c]]"

text \<open>
  The product of \<open>[CH3:2][Cl:3]>>[CH3:2]O\<close>: methanol whose oxygen has no map number,
  a terminal atom.
\<close>

definition c_o_bond :: bond where
  "c_o_bond = \<lparr>begin_atomic_num = 6, begin_map = Some ''2'',
                end_atomic_num = 8, end_map = None, bond_smarts = []\<rparr>"

definition methanol_c :: atom where
  "methanol_c = \<lparr>idx = 0, smarts = ''[CH3:2]'', atomic_num = 6, total_num_hs = 3,
                  formal_charge = 0, degree = 1, num_radical_electrons = 0,
                  is_aromatic = False, map_number = Some ''2'', bonds = [c_o_bond],
                  neighbors = [1]\<rparr>"

definition hydroxyl_o :: atom where
  "hydroxyl_o = \<lparr>idx = 1, smarts = ''O'', atomic_num = 8, total_num_hs = 1,
                  formal_charge = 0, degree = 1, num_radical_electrons = 0,
                  is_aromatic = False, map_number = None, bonds = [c_o_bond],
                  neighbors = [0]\<rparr>"

text \<open>
  The atoms of \<open>[CH3:5][CH2:4][CH2:2][Cl:3]>[OH2:1]>[CH3:5][CH2:4][CH2:2][OH:1]\<close>:
  1-chloropropane becomes 1-propanol, and the oxygen comes from the water written as
  an agent, so that no reactant atom carries its label.
\<close>

definition c5_c4_bond :: bond where
  "c5_c4_bond = \<lparr>begin_atomic_num = 6, begin_map = Some ''5'',
                  end_atomic_num = 6, end_map = Some ''4'', bond_smarts = []\<rparr>"

definition c4_c2_bond :: bond where
  "c4_c2_bond = \<lparr>begin_atomic_num = 6, begin_map = Some ''4'',
                  end_atomic_num = 6, end_map = Some ''2'', bond_smarts = []\<rparr>"

definition c2_cl_bond :: bond where
  "c2_cl_bond = \<lparr>begin_atomic_num = 6, begin_map = Some ''2'',
                  end_atomic_num = 17, end_map = Some ''3'', bond_smarts = []\<rparr>"

definition c2_o_bond :: bond where
  "c2_o_bond = \<lparr>begin_atomic_num = 6, begin_map = Some ''2'',
                 end_atomic_num = 8, end_map = Some ''1'', bond_smarts = []\<rparr>"

definition propyl_c5 :: atom where
  "propyl_c5 = \<lparr>idx = 0, smarts = ''[CH3:5]'', atomic_num = 6, total_num_hs = 3,
                 formal_charge = 0, degree = 1, num_radical_electrons = 0,
                 is_aromatic = False, map_number = Some ''5'', bonds = [c5_c4_bond],
                 neighbors = [1]\<rparr>"

definition propyl_c4 :: atom where
  "propyl_c4 = \<lparr>idx = 1, smarts = ''[CH2:4]'', atomic_num = 6, total_num_hs = 2,
                 formal_charge = 0, degree = 2, num_radical_electrons = 0,
                 is_aromatic = False, map_number = Some ''4'',
                 bonds = [c5_c4_bond, c4_c2_bond], neighbors = [0, 2]\<rparr>"

definition chloride_c2 :: atom where
  "chloride_c2 = \<lparr>idx = 2, smarts = ''[CH2:2]'', atomic_num = 6, total_num_hs = 2,
                   formal_charge = 0, degree = 2, num_radical_electrons = 0,
                   is_aromatic = False, map_number = Some ''2'',
                   bonds = [c4_c2_bond, c2_cl_bond], neighbors = [1, 3]\<rparr>"

definition chloride_cl :: atom where
  "chloride_cl = \<lparr>idx = 3, smarts = ''[Cl:3]'', atomic_num = 17, total_num_hs = 0,
                   formal_charge = 0, degree = 1, num_radical_electrons = 0,
                   is_aromatic = False, map_number = Some ''3'', bonds = [c2_cl_bond],
                   neighbors = [2]\<rparr>"

definition alcohol_c2 :: atom where
  "alcohol_c2 = \<lparr>idx = 2, smarts = ''[CH2:2]'', atomic_num = 6, total_num_hs = 2,
                  formal_charge = 0, degree = 2, num_radical_electrons = 0,
                  is_aromatic = False, map_number = Some ''2'',
                  bonds = [c4_c2_bond, c2_o_bond], neighbors = [1, 3]\<rparr>"

definition alcohol_o :: atom where
  "alcohol_o = \<lparr>idx = 3, smarts = ''[OH:1]'', atomic_num = 8, total_num_hs = 1,
                 formal_charge = 0, degree = 1, num_radical_electrons = 0,
                 is_aromatic = False, map_number = Some ''1'', bonds = [c2_o_bond],
                 neighbors = [2]\<rparr>"

definition chloropropane :: mol where
  "chloropropane = [propyl_c5, propyl_c4, chloride_c2, chloride_cl]"

definition propanol :: mol where
  "propanol = [propyl_c5, propyl_c4, alcohol_c2, alcohol_o]"

text \<open>
  A toolkit for the examples, standing in for the chemistry toolkit on these inputs
  only. It parses the first word of three lines: the reduction of chloromethane beside
  water, the hydrolysis with the unmapped oxygen, and the hydrolysis of
  1-chloropropane; nothing else. No special group is matched, and the validation finds
  no error. The molecules of the examples are chains and the atoms chosen from one are
  neighbours in it: in place of \<open>MolFragmentToSmiles\<close>, the chosen symbols are written
  in the order of the chain with the single bonds between them written out (the
  toolkit may write the same chain from its other end). \<open>tell\<close> is not read from here:
  \<open>main_on\<close> sets it from the file object.
\<close>

definition example_line :: string where
  "example_line = ''[OH2:1].[CH3:2][Cl:3]>>[OH2:1].[CH4:2]''"

definition partly_mapped_line :: string where
  "partly_mapped_line = ''[CH3:2][Cl:3]>>[CH3:2]O''"

definition hydrolysis_line :: string where
  "hydrolysis_line = ''[CH3:5][CH2:4][CH2:2][Cl:3]>[OH2:1]>[CH3:5][CH2:4][CH2:2][OH:1]''"

definition example_toolkit :: toolkit where
  "example_toolkit =
     \<lparr>unpack = (\<lambda>line.
         if takeWhile (\<lambda>c. c \<noteq> newline) line = example_line
         then Inr (example_reactants, [], example_products)
         else if takeWhile (\<lambda>c. c \<noteq> newline) line = partly_mapped_line
         then Inr ([[methyl_c, chlorine]], [], [[methanol_c, hydroxyl_o]])
         else if takeWhile (\<lambda>c. c \<noteq> newline) line = hydrolysis_line
         then Inr ([chloropropane], [[water_o]], [propanol])
         else Inl ToolkitError),
      substruct_matches = (\<lambda>m template. []),
      mol_fragment_to_smiles = (\<lambda>m atoms_to_use symbols.
         Inr (join ''-'' (map (\<lambda>i. symbols ! i) (sort (remdups atoms_to_use))))),
      validate = (\<lambda>rxn_string. Inr 0),
      tell = (\<lambda>i. 0)\<rparr>"

definition empty_state :: scan_state where
  "empty_state = initial_state []"

text \<open>A corpus of two records, each a line of 39 bytes.\<close>

definition two_records :: string where
  "two_records = example_line @ [newline] @ example_line @ [newline]"

section \<open>Properties of the Template Canonicalizer\<close>

lemma not_digit_chars [simp]:
  "\<not> is_digit CHR '':''" "\<not> is_digit CHR '']''" "\<not> is_digit CHR ''.''"
  "\<not> is_digit CHR ''(''" "\<not> is_digit CHR '')''" "\<not> is_digit CHR ''>''"
  by (simp_all add: is_digit_def)

lemma label_start_iff:
  "label_start cs \<longleftrightarrow> (\<exists>l r. digits l \<and> cs = l @ CHR '']'' # r)"
proof
  assume ls: "label_start cs"
  then have "dropWhile is_digit cs = CHR '']'' # tl (dropWhile is_digit cs)"
    by (cases "dropWhile is_digit cs") (auto simp: label_start_def)
  then have "cs = takeWhile is_digit cs @ CHR '']'' # tl (dropWhile is_digit cs)"
    by (metis takeWhile_dropWhile_id)
  moreover have "digits (takeWhile is_digit cs)"
    using ls by (auto simp: digits_def label_start_def dest: set_takeWhileD)
  ultimately show "\<exists>l r. digits l \<and> cs = l @ CHR '']'' # r"
    by blast
next
  assume "\<exists>l r. digits l \<and> cs = l @ CHR '']'' # r"
  then obtain l r where "digits l" "cs = l @ CHR '']'' # r" by blast
  then show "label_start cs"
    by (simp add: label_start_def digits_def takeWhile_append2 dropWhile_append2)
qed

lemma tokens_Lab [simp]:
  assumes "digits l"
  shows "tokens (CHR '':'' # l @ CHR '']'' # r) = Lab l # tokens r"
proof -
  from assms have "takeWhile is_digit (l @ CHR '']'' # r) = l"
    and "dropWhile is_digit (l @ CHR '']'' # r) = CHR '']'' # r"
    by (simp_all add: digits_def takeWhile_append2 dropWhile_append2)
  moreover from assms have "label_start (l @ CHR '']'' # r)"
    by (auto simp: label_start_iff)
  ultimately show ?thesis
    by (simp add: tokens.simps(2))
qed

lemma tokens_Chr:
  "\<not> (c = CHR '':'' \<and> label_start cs) \<Longrightarrow> tokens (c # cs) = Chr c # tokens cs"
  by (simp add: tokens.simps(2))

lemma tokens_cases_induct [case_names Nil Label Char]:
  assumes "P []"
    and "\<And>l r. digits l \<Longrightarrow> P r \<Longrightarrow> P (CHR '':'' # l @ CHR '']'' # r)"
    and "\<And>c cs. \<not> (c = CHR '':'' \<and> label_start cs) \<Longrightarrow> P cs \<Longrightarrow> P (c # cs)"
  shows "P s"
proof (induction s rule: length_induct)
  case (1 s)
  show ?case
  proof (cases s)
    case Nil
    then show ?thesis using assms(1) by simp
  next
    case (Cons c cs)
    show ?thesis
    proof (cases "c = CHR '':'' \<and> label_start cs")
      case True
      then obtain l r where lr: "digits l" "cs = l @ CHR '']'' # r"
        by (auto simp: label_start_iff)
      then have "length r < length s" using Cons by simp
      then have "P r" using 1 by blast
      then show ?thesis using assms(2) lr True Cons by simp
    next
      case False
      have "P cs" using 1 Cons by simp
      then show ?thesis using assms(3) False Cons by simp
    qed
  qed
qed

lemma render_tokens [simp]: "render (tokens s) = s"
  by (induction s rule: tokens_cases_induct) (simp_all add: tokens_Chr)

lemma relabel_simps:
  "relabel g [] = []"
  "digits l \<Longrightarrow> relabel g (CHR '':'' # l @ CHR '']'' # r) = CHR '':'' # g l @ CHR '']'' # relabel g r"
  "\<not> (c = CHR '':'' \<and> label_start cs) \<Longrightarrow> relabel g (c # cs) = c # relabel g cs"
  by (simp_all add: relabel_def tokens_Chr)

lemma relabel_takeWhile:
  assumes "\<And>l. digits (g l)"
  shows "takeWhile is_digit (relabel g cs) = takeWhile is_digit cs"
proof (induction cs rule: tokens_cases_induct)
  case Nil
  then show ?case by (simp add: relabel_simps)
next
  case (Label l r)
  then show ?case by (simp add: relabel_simps)
next
  case (Char c cs)
  then show ?case by (simp add: relabel_simps)
qed

lemma relabel_dropWhile_hd:
  assumes "\<And>l. digits (g l)"
  shows "take 1 (dropWhile is_digit (relabel g cs)) = take 1 (dropWhile is_digit cs)"
proof (induction cs rule: tokens_cases_induct)
  case Nil
  then show ?case by (simp add: relabel_simps)
next
  case (Label l r)
  then show ?case by (simp add: relabel_simps)
next
  case (Char c cs)
  then show ?case by (simp add: relabel_simps)
qed

lemma relabel_label_start:
  assumes "\<And>l. digits (g l)"
  shows "label_start (relabel g cs) = label_start cs"
  unfolding label_start_def
  using relabel_takeWhile [OF assms] relabel_dropWhile_hd [OF assms] by simp

lemma tokens_relabel:
  assumes "\<And>l. digits (g l)"
  shows "tokens (relabel g s) = relabel_tokens g (tokens s)"
proof (induction s rule: tokens_cases_induct)
  case Nil
  then show ?case by (simp add: relabel_simps)
next
  case (Label l r)
  then show ?case using assms by (simp add: relabel_simps)
next
  case (Char c cs)
  then show ?case
    using relabel_label_start [OF assms, where cs = cs]
    by (simp add: relabel_simps tokens_Chr)
qed

lemma labels_of_relabel [simp]: "labels_of (relabel_tokens g ts) = map g (labels_of ts)"
  by (induction ts rule: labels_of.induct) simp_all

lemma strip_tokens_relabel [simp]: "strip_tokens (relabel_tokens g ts) = strip_tokens ts"
  by (induction ts rule: strip_tokens.induct) simp_all

lemma sub_pop_map:
  "sub_pop ts (map g (labels_of ts)) = Inr (render (relabel_tokens g ts))"
  by (induction ts rule: labels_of.induct) simp_all

lemma first_rank_append_seen:
  "l \<in> set seen \<Longrightarrow> first_rank (seen @ ls) l = first_rank seen l"
  by (simp add: first_rank_def takeWhile_append1)

lemma first_rank_new:
  "l \<notin> set seen \<Longrightarrow> first_rank (seen @ l # ls) l = Suc (card (set seen))"
proof -
  assume "l \<notin> set seen"
  then have "takeWhile (\<lambda>x. x \<noteq> l) (seen @ l # ls) = seen"
    by (subst takeWhile_append2) auto
  then show ?thesis by (simp add: first_rank_def)
qed

lemma assign_loop_rank:
  assumes "\<And>x. d x = (if x \<in> set seen then Some (str_nat (first_rank seen x)) else None)"
    and "c = Suc (card (set seen))"
  shows "assign_loop ls d c reps = reps @ map (\<lambda>l. str_nat (first_rank (seen @ ls) l)) ls"
  using assms
proof (induction ls arbitrary: d c reps seen)
  case Nil
  then show ?case by simp
next
  case (Cons l ls)
  show ?case
  proof (cases "l \<in> set seen")
    case True
    have d': "\<And>x. d x = (if x \<in> set (seen @ [l]) then Some (str_nat (first_rank (seen @ [l]) x)) else None)"
      using True Cons.prems(1) by (auto simp: first_rank_append_seen)
    have c': "c = Suc (card (set (seen @ [l])))"
      using True Cons.prems(2) by (simp add: insert_absorb)
    have "assign_loop (l # ls) d c reps = assign_loop ls d c (reps @ [str_nat (first_rank seen l)])"
      using True Cons.prems(1) by simp
    also have "\<dots> = (reps @ [str_nat (first_rank seen l)]) @ map (\<lambda>x. str_nat (first_rank ((seen @ [l]) @ ls) x)) ls"
      by (rule Cons.IH [OF d' c'])
    finally show ?thesis
      using True by (simp add: first_rank_append_seen)
  next
    case False
    let ?d = "d(l \<mapsto> str_nat c)"
    have d': "\<And>x. ?d x = (if x \<in> set (seen @ [l]) then Some (str_nat (first_rank (seen @ [l]) x)) else None)"
      using False Cons.prems by (auto simp: first_rank_append_seen first_rank_new [where ls = "[]"])
    have c': "c + 1 = Suc (card (set (seen @ [l])))"
      using False Cons.prems(2) by simp
    have "assign_loop (l # ls) d c reps = assign_loop ls ?d (c + 1) (reps @ [str_nat c])"
      using False Cons.prems(1) by simp
    also have "\<dots> = (reps @ [str_nat c]) @ map (\<lambda>x. str_nat (first_rank ((seen @ [l]) @ ls) x)) ls"
      by (rule Cons.IH [OF d' c'])
    finally show ?thesis
      using False Cons.prems(2) by (simp add: first_rank_new)
  qed
qed

lemma assign_loop_initial:
  "assign_loop ls Map.empty 1 [] = map (\<lambda>l. str_nat (first_rank ls l)) ls"
  using assign_loop_rank [of Map.empty "[]" 1 ls "[]"] by simp

lemma reassign_atom_mapping_relabel:
  "reassign_atom_mapping s =
     Inr (relabel (\<lambda>l. str_nat (first_rank (findall_labels s) l)) s)"
proof -
  have "assign_loop (findall_labels s) Map.empty 1 []
      = map (\<lambda>l. str_nat (first_rank (findall_labels s) l)) (labels_of (tokens s))"
    by (simp only: assign_loop_initial findall_labels_def)
  then show ?thesis
    by (simp only: reassign_atom_mapping_def Let_def sub_pop_map relabel_def)
qed

lemma is_digit_digit_char: "d < 10 \<Longrightarrow> is_digit (digit_char d)"
proof -
  assume "d < 10"
  then have "d \<in> {0, 1, 2, 3, 4, 5, 6, 7, 8, 9}" by auto
  then show ?thesis
    by (auto simp: is_digit_def digit_char_def)
qed

lemma digits_str_nat [simp]: "digits (str_nat n)"
proof (induction n rule: str_nat.induct)
  case (1 n)
  show ?case
  proof (cases "n < 10")
    case True
    then show ?thesis
      by (subst str_nat.simps) (simp add: digits_def is_digit_digit_char)
  next
    case False
    then show ?thesis
      using 1 by (subst str_nat.simps) (auto simp: digits_def is_digit_digit_char)
  qed
qed

lemma split_str_Nil [simp]: "sep \<noteq> [] \<Longrightarrow> split_str sep [] = [[]]"
  by (subst split_str.simps) simp

lemma split_str_ne [simp]: "split_str sep s \<noteq> []"
  by (induction sep s rule: split_str.induct) (subst split_str.simps, auto split: list.splits)

lemma split_str_here:
  "sep \<noteq> [] \<Longrightarrow> split_str sep (sep @ r) = [] # split_str sep r"
  by (subst split_str.simps) simp

lemma split_str_step:
  "take (length sep) (c # cs) \<noteq> sep \<Longrightarrow>
   split_str sep (c # cs) = (c # hd (split_str sep cs)) # tl (split_str sep cs)"
  by (subst split_str.simps) (auto split: list.splits)

lemma split_str_else:
  "\<not> (sep \<noteq> [] \<and> take (length sep) s = sep) \<Longrightarrow>
   split_str sep s = (case s of [] \<Rightarrow> [[]]
      | c # cs \<Rightarrow> (case split_str sep cs of [] \<Rightarrow> [[c]] | p # ps \<Rightarrow> (c # p) # ps))"
  by (subst split_str.simps) (rule if_not_P)

lemma join_split_str: "join sep (split_str sep s) = s"
proof (induction sep s rule: split_str.induct)
  case (1 sep s)
  show ?case
  proof (cases "sep \<noteq> [] \<and> take (length sep) s = sep")
    case True
    then have s: "s = sep @ drop (length sep) s"
      by (metis append_take_drop_id)
    have "join sep ([] # split_str sep (drop (length sep) s)) = sep @ join sep (split_str sep (drop (length sep) s))"
      by (cases "split_str sep (drop (length sep) s)") auto
    then show ?thesis
      using True 1(1) s by (subst split_str.simps) simp
  next
    case False
    show ?thesis
    proof (cases s)
      case Nil
      then show ?thesis using split_str_else [OF False] by simp
    next
      case (Cons c cs)
      then obtain p ps where pps: "split_str sep cs = p # ps"
        by (cases "split_str sep cs") auto
      have "join sep ((c # p) # ps) = c # join sep (p # ps)"
        by (cases ps) auto
      moreover have "join sep (p # ps) = cs"
        using 1(2)[OF False Cons] pps by simp
      ultimately show ?thesis
        using split_str_else [OF False] Cons pps by simp
    qed
  qed
qed

text \<open>A separator whose first character does not occur in the pieces.\<close>

lemma split_str_fresh_single:
  "sep \<noteq> [] \<Longrightarrow> hd sep \<notin> set x \<Longrightarrow> split_str sep x = [x]"
proof (induction x)
  case Nil
  then show ?case by simp
next
  case (Cons c x)
  then have "take (length sep) (c # x) \<noteq> sep"
    by (cases sep) auto
  then show ?case using Cons by (simp add: split_str_step)
qed

lemma split_str_fresh_append:
  "sep \<noteq> [] \<Longrightarrow> hd sep \<notin> set x \<Longrightarrow> split_str sep (x @ sep @ r) = x # split_str sep r"
proof (induction x)
  case Nil
  then show ?case by (simp add: split_str_here)
next
  case (Cons c x)
  then have "take (length sep) ((c # x) @ sep @ r) \<noteq> sep"
    by (cases sep) auto
  then show ?case using Cons by (simp add: split_str_step)
qed

lemma split_join_fresh:
  "sep \<noteq> [] \<Longrightarrow> xs \<noteq> [] \<Longrightarrow> \<forall>x\<in>set xs. hd sep \<notin> set x \<Longrightarrow> split_str sep (join sep xs) = xs"
proof (induction sep xs rule: join.induct)
  case (1 sep)
  then show ?case by simp
next
  case (2 sep x)
  then show ?case by (simp add: split_str_fresh_single)
next
  case (3 sep x y ys)
  then show ?case by (simp add: split_str_fresh_append)
qed

lemma split_str_fresh_pieces:
  "sep = [c] \<Longrightarrow> p \<in> set (split_str sep s) \<Longrightarrow> c \<notin> set p"
proof (induction sep s arbitrary: p rule: split_str.induct)
  case (1 sep s)
  show ?case
  proof (cases "take (length sep) s = sep")
    case True
    then have "split_str sep s = [] # split_str sep (drop (length sep) s)"
      using 1(3) by (subst split_str.simps) simp
    then show ?thesis using 1(1)[OF _ 1(3)] 1(3,4) True by auto
  next
    case False
    show ?thesis
    proof (cases s)
      case Nil
      then show ?thesis using 1(3,4) by simp
    next
      case (Cons d ds)
      then have ne: "d \<noteq> c" using False 1(3) by auto
      have eq: "split_str sep s = (d # hd (split_str sep ds)) # tl (split_str sep ds)"
        using False Cons by (simp add: split_str_step)
      have IH: "\<And>q. q \<in> set (split_str sep ds) \<Longrightarrow> c \<notin> set q"
        using 1(2)[OF _ Cons 1(3)] False by simp
      have "hd (split_str sep ds) \<in> set (split_str sep ds)" by simp
      moreover have "set (tl (split_str sep ds)) \<subseteq> set (split_str sep ds)"
        by (simp add: list.set_sel(2) subsetI)
      ultimately show ?thesis using eq 1(4) IH ne by auto
    qed
  qed
qed

lemma split_mols_single: "\<not> dot_paren x \<Longrightarrow> split_str '').('' x = [x]"
proof (induction x)
  case Nil
  then show ?case by simp
next
  case (Cons c x)
  have "take (length '').('') (c # x) \<noteq> '').(''"
  proof (cases x)
    case Nil
    then show ?thesis by simp
  next
    case (Cons d y)
    then show ?thesis using Cons.prems by (cases y) auto
  qed
  moreover have "\<not> dot_paren x" using Cons.prems by (cases x) auto
  ultimately show ?case using Cons.IH by (simp add: split_str_step)
qed

lemma split_mols_append:
  "\<not> dot_paren x \<Longrightarrow> split_str '').('' (x @ '').('' @ r) = x # split_str '').('' r"
proof (induction x)
  case Nil
  show ?case using split_str_here [of "'').(''" r] by simp
next
  case (Cons c x)
  have "take (length '').('') ((c # x) @ '').('' @ r) \<noteq> '').(''"
  proof (cases x)
    case Nil
    then show ?thesis by simp
  next
    case (Cons d y)
    then show ?thesis using Cons.prems by (cases y) auto
  qed
  moreover have "\<not> dot_paren x" using Cons.prems by (cases x) auto
  ultimately show ?case using Cons.IH by (simp add: split_str_step)
qed

lemma split_join_mols:
  "xs \<noteq> [] \<Longrightarrow> \<forall>x\<in>set xs. \<not> dot_paren x \<Longrightarrow> split_str '').('' (join '').('' xs) = xs"
proof (induction "'').(''" xs rule: join.induct)
  case 1
  then show ?case by simp
next
  case (2 x)
  then show ?case by (simp add: split_mols_single)
next
  case (3 x y ys)
  then show ?case using split_mols_append [of x "join '').('' (y # ys)"] by simp
qed

lemma label_start_append_safe:
  assumes "safe c"
  shows "label_start (cs @ c # b) = label_start cs"
proof (cases "\<forall>x\<in>set cs. is_digit x")
  case True
  then have tw: "takeWhile is_digit (cs @ c # b) = cs" "dropWhile is_digit (cs @ c # b) = c # b"
    using assms by (simp_all add: safe_def takeWhile_append2 dropWhile_append2)
  have dw: "dropWhile is_digit cs = []"
    using True by simp
  have "\<not> label_start cs"
    unfolding label_start_def dw by simp
  moreover have "\<not> label_start (cs @ c # b)"
    unfolding label_start_def tw using assms by (simp add: safe_def)
  ultimately show ?thesis by simp
next
  case False
  then obtain x where x: "x \<in> set cs" "\<not> is_digit x" by blast
  then have "takeWhile is_digit (cs @ c # b) = takeWhile is_digit cs"
    "dropWhile is_digit (cs @ c # b) = dropWhile is_digit cs @ c # b"
    by (simp_all add: takeWhile_append1 dropWhile_append1)
  moreover have "dropWhile is_digit cs \<noteq> []" using x by auto
  ultimately show ?thesis by (cases "dropWhile is_digit cs") (simp_all add: label_start_def)
qed

lemma tokens_append_safe:
  assumes "safe c"
  shows "tokens (a @ c # b) = tokens a @ Chr c # tokens b"
proof (induction a rule: tokens_cases_induct)
  case Nil
  then show ?case using assms by (simp add: tokens_Chr safe_def)
next
  case (Label l r)
  then show ?case by simp
next
  case (Char x cs)
  then show ?case using assms by (simp add: tokens_Chr label_start_append_safe)
qed

lemma strip_tokens_append [simp]: "strip_tokens (ts @ us) = strip_tokens ts @ strip_tokens us"
  by (induction ts rule: strip_tokens.induct) simp_all

lemma render_append [simp]: "render (ts @ us) = render ts @ render us"
  by (induction ts rule: render.induct) simp_all

lemma relabel_tokens_append [simp]:
  "relabel_tokens g (ts @ us) = relabel_tokens g ts @ relabel_tokens g us"
  by (induction g ts rule: relabel_tokens.induct) simp_all

lemma labels_of_append [simp]: "labels_of (ts @ us) = labels_of ts @ labels_of us"
  by (induction ts rule: labels_of.induct) simp_all

lemma tokens_append_sep:
  "sep \<noteq> [] \<Longrightarrow> \<forall>c\<in>set sep. safe c \<Longrightarrow> tokens (a @ sep @ b) = tokens a @ map Chr sep @ tokens b"
proof (induction sep arbitrary: a)
  case Nil
  then show ?case by simp
next
  case (Cons c sep)
  show ?case
  proof (cases "sep = []")
    case True
    then show ?thesis using Cons.prems by (simp add: tokens_append_safe)
  next
    case False
    have "tokens (a @ (c # sep) @ b) = tokens a @ Chr c # tokens ([] @ sep @ b)"
      using Cons.prems by (simp add: tokens_append_safe)
    also have "tokens ([] @ sep @ b) = tokens [] @ map Chr sep @ tokens b"
      using Cons.prems False by (intro Cons.IH) auto
    finally show ?thesis by simp
  qed
qed

lemma strip_tokens_Chr [simp]: "strip_tokens (map Chr s) = s"
  by (induction s) simp_all

lemma render_Chr [simp]: "render (map Chr s) = s"
  by (induction s) simp_all

lemma relabel_tokens_Chr [simp]: "relabel_tokens g (map Chr s) = map Chr s"
  by (induction s) simp_all

lemma labels_of_Chr [simp]: "labels_of (map Chr s) = []"
  by (induction s) simp_all

lemma strip_labels_sep:
  "sep \<noteq> [] \<Longrightarrow> \<forall>c\<in>set sep. safe c \<Longrightarrow>
   strip_labels (a @ sep @ b) = strip_labels a @ sep @ strip_labels b"
  by (simp add: strip_labels_def tokens_append_sep)

lemma relabel_sep:
  "sep \<noteq> [] \<Longrightarrow> \<forall>c\<in>set sep. safe c \<Longrightarrow>
   relabel g (a @ sep @ b) = relabel g a @ sep @ relabel g b"
  by (simp add: relabel_def tokens_append_sep)

lemma findall_labels_sep:
  "sep \<noteq> [] \<Longrightarrow> \<forall>c\<in>set sep. safe c \<Longrightarrow>
   findall_labels (a @ sep @ b) = findall_labels a @ findall_labels b"
  by (simp add: findall_labels_def tokens_append_sep)

lemma strip_labels_Nil [simp]: "strip_labels [] = []"
  by (simp add: strip_labels_def)

lemma relabel_Nil [simp]: "relabel g [] = []"
  by (simp add: relabel_def)

lemma findall_labels_Nil [simp]: "findall_labels [] = []"
  by (simp add: findall_labels_def)

lemma strip_labels_join:
  "sep \<noteq> [] \<Longrightarrow> \<forall>c\<in>set sep. safe c \<Longrightarrow>
   strip_labels (join sep xs) = join sep (map strip_labels xs)"
  by (induction sep xs rule: join.induct) (simp_all add: strip_labels_sep)

lemma relabel_join:
  "sep \<noteq> [] \<Longrightarrow> \<forall>c\<in>set sep. safe c \<Longrightarrow>
   relabel g (join sep xs) = join sep (map (relabel g) xs)"
  by (induction sep xs rule: join.induct) (simp_all add: relabel_sep)

lemma findall_labels_join:
  "sep \<noteq> [] \<Longrightarrow> \<forall>c\<in>set sep. safe c \<Longrightarrow>
   findall_labels (join sep xs) = concat (map findall_labels xs)"
  by (induction sep xs rule: join.induct) (simp_all add: findall_labels_sep)

lemma safe_chars [simp]:
  "safe CHR ''.''" "safe CHR ''(''" "safe CHR '')''" "safe CHR ''>''"
  by (simp_all add: safe_def)

lemma strip_labels_parens:
  "strip_labels (CHR ''('' # x @ '')'') = CHR ''('' # strip_labels x @ '')''"
  using strip_labels_sep [of "''(''" "[]" "x @ '')''"] strip_labels_sep [of "'')''" x "[]"]
  by simp

lemma relabel_parens:
  "relabel g (CHR ''('' # x @ '')'') = CHR ''('' # relabel g x @ '')''"
  using relabel_sep [where sep = "''(''" and a = "[]" and b = "x @ '')''" and g = g]
    relabel_sep [where sep = "'')''" and a = x and b = "[]" and g = g]
  by simp

lemma findall_labels_parens:
  "findall_labels (CHR ''('' # x @ '')'') = findall_labels x"
  using findall_labels_sep [of "''(''" "[]" "x @ '')''"] findall_labels_sep [of "'')''" x "[]"]
  by simp

lemma insort_key_map:
  "map g (insort_key (\<lambda>x. k (g x)) z zs) = insort_key k (g z) (map g zs)"
  by (induction zs) simp_all

lemma sort_key_map: "map g (sort_key (\<lambda>x. k (g x)) zs) = sort_key k (map g zs)"
  by (induction zs) (simp_all add: insort_key_map)

lemma pick_all:
  "\<forall>j\<in>set js. j < length xs \<Longrightarrow> pick xs js = Inr (map ((!) xs) js)"
  by (induction js) simp_all

lemma enumerate_map: "enumerate n (map f xs) = map (\<lambda>(i, x). (i, f x)) (enumerate n xs)"
  by (induction xs arbitrary: n) simp_all

lemma sortorder_map:
  "sortorder (map b zs) = map fst (sort_key (\<lambda>p. b (snd p)) (enumerate 0 zs))"
proof -
  let ?h = "\<lambda>p. (fst p :: nat, b (snd p))"
  have "sort_key snd (map ?h (enumerate 0 zs)) = map ?h (sort_key (\<lambda>p. snd (?h p)) (enumerate 0 zs))"
    by (rule sort_key_map [symmetric])
  moreover have "enumerate 0 (map b zs) = map ?h (enumerate 0 zs)"
    by (simp add: enumerate_map case_prod_beta)
  ultimately show ?thesis
    by (simp add: sortorder_def comp_def)
qed

lemma pick_sortorder:
  "pick (map a zs) (sortorder (map b zs)) = Inr (map a (sort_key b zs))"
proof -
  let ?S = "sort_key (\<lambda>p. b (snd p)) (enumerate 0 zs)"
  have mem: "\<And>p. p \<in> set ?S \<Longrightarrow> fst p < length zs \<and> zs ! fst p = snd p"
    by (auto simp: in_set_enumerate_eq)
  then have "\<forall>j\<in>set (sortorder (map b zs)). j < length (map a zs)"
    by (auto simp: sortorder_map)
  then have "pick (map a zs) (sortorder (map b zs)) = Inr (map ((!) (map a zs)) (sortorder (map b zs)))"
    by (rule pick_all)
  also have "map ((!) (map a zs)) (sortorder (map b zs)) = map (a \<circ> snd) ?S"
    using mem by (auto simp: sortorder_map)
  also have "\<dots> = map a (map snd ?S)" by simp
  also have "map snd ?S = sort_key b (map snd (enumerate 0 zs))"
    by (rule sort_key_map)
  finally show ?thesis by (simp add: enumerate_eq_zip)
qed

lemma pick_sortorder_self:
  "pick zs (sortorder (map b zs)) = Inr (sort_key b zs)"
  using pick_sortorder [of "\<lambda>x. x" zs b] by simp

lemma pick_sortorder_keys:
  "pick (map b zs) (sortorder (map b zs)) = Inr (map b (sort_key b zs))"
  by (rule pick_sortorder)

lemma strip_labels_simps:
  "digits l \<Longrightarrow> strip_labels (CHR '':'' # l @ CHR '']'' # r) = CHR '']'' # strip_labels r"
  "\<not> (c = CHR '':'' \<and> label_start cs) \<Longrightarrow> strip_labels (c # cs) = c # strip_labels cs"
  by (simp_all add: strip_labels_def tokens_Chr)

lemma set_strip_labels: "set (strip_labels f) \<subseteq> set f"
  by (induction f rule: tokens_cases_induct) (auto simp: strip_labels_simps)

lemma take1_strip_labels: "take 1 (strip_labels f) = ''('' \<longleftrightarrow> take 1 f = ''(''"
  by (induction f rule: tokens_cases_induct) (auto simp: strip_labels_simps)

lemma wf_frag_strip: "wf_frag f \<Longrightarrow> wf_frag (strip_labels f)"
  using set_strip_labels [of f] take1_strip_labels [of f] by (auto simp: wf_frag_def)

lemma dot_paren_append:
  "dot_paren (a @ b) \<longleftrightarrow>
     dot_paren a \<or> dot_paren b \<or> (a \<noteq> [] \<and> last a = CHR ''.'' \<and> take 1 b = ''('')"
proof (induction a rule: dot_paren.induct)
  case 1
  then show ?case by simp
next
  case (2 c)
  then show ?case by (cases b) auto
next
  case (3 c d r)
  then show ?case by auto
qed

lemma no_dot_no_dot_paren: "CHR ''.'' \<notin> set f \<Longrightarrow> \<not> dot_paren f"
  by (induction f rule: dot_paren.induct) auto

lemma take1_join:
  "take 1 f \<noteq> ''('' \<Longrightarrow> take 1 (join ''.'' (f # fs)) \<noteq> ''(''"
  by (cases fs; cases f) auto

lemma dot_paren_join:
  "\<forall>f\<in>set fs. CHR ''.'' \<notin> set f \<and> take 1 f \<noteq> ''('' \<Longrightarrow> \<not> dot_paren (join ''.'' fs)"
proof (induction "''.''" fs rule: join.induct)
  case 1
  then show ?case by simp
next
  case (2 x)
  then show ?case by (simp add: no_dot_no_dot_paren)
next
  case (3 x y ys)
  have a: "\<not> dot_paren x" using 3 by (simp add: no_dot_no_dot_paren)
  have b: "\<not> dot_paren (join ''.'' (y # ys))" using 3 by simp
  have c: "take 1 (join ''.'' (y # ys)) \<noteq> ''(''" using 3(2) by (intro take1_join) simp
  have "\<not> dot_paren (CHR ''.'' # join ''.'' (y # ys))"
    using b c by (cases "join ''.'' (y # ys)") auto
  then have "\<not> dot_paren (x @ CHR ''.'' # join ''.'' (y # ys))"
    using a by (auto simp: dot_paren_append)
  then show ?case by simp
qed

lemma wf_frag_dot_paren:
  "\<forall>f\<in>set fs. wf_frag f \<Longrightarrow> \<not> dot_paren (join ''.'' fs)"
  by (rule dot_paren_join) (simp add: wf_frag_def)

lemma split_join_frags:
  "fs \<noteq> [] \<Longrightarrow> \<forall>f\<in>set fs. wf_frag f \<Longrightarrow> split_str ''.'' (join ''.'' fs) = fs"
  by (rule split_join_fresh) (simp_all add: wf_frag_def)

lemma sort_mol_frags_wf:
  assumes "fs \<noteq> []" "\<forall>f\<in>set fs. wf_frag f"
  shows "sort_mol_frags (join ''.'' (map strip_labels fs)) (join ''.'' fs)
       = Inr (bare_key (sort_frags fs), join ''.'' (sort_frags fs))"
proof -
  have 1: "split_str ''.'' (join ''.'' (map strip_labels fs)) = map strip_labels fs"
    using assms by (intro split_join_frags) (auto simp: wf_frag_strip)
  have 2: "split_str ''.'' (join ''.'' fs) = fs"
    using assms by (rule split_join_frags)
  show ?thesis
    by (simp add: sort_mol_frags_def 1 2 pick_sortorder_self pick_sortorder_keys
        bare_key_def sort_frags_def)
qed

lemma sort_all_mols_wf:
  assumes "\<forall>fs\<in>set mols. fs \<noteq> [] \<and> (\<forall>f\<in>set fs. wf_frag f)"
  shows "sort_all_mols (map (\<lambda>fs. join ''.'' (map strip_labels fs)) mols) (map (join ''.'') mols)
       = Inr (map (\<lambda>fs. bare_key (sort_frags fs)) mols, map (\<lambda>fs. join ''.'' (sort_frags fs)) mols)"
  using assms by (induction mols) (simp_all add: sort_mol_frags_wf)

lemma slice_inner_parens [simp]: "slice_inner (CHR ''('' # x @ '')'') = x"
  by (simp add: slice_inner_def butlast_append)

lemma strip_labels_render_half:
  "strip_labels (render_half mols) = render_half (map (map strip_labels) mols)"
  by (simp add: render_half_def strip_labels_parens strip_labels_join comp_def)

lemma canonicalize_template_wf:
  assumes "wf_mols mols"
  shows "canonicalize_template (render_half mols) = Inr (render_half (canon_mols mols))"
proof -
  have wf: "\<forall>fs\<in>set mols. fs \<noteq> [] \<and> (\<forall>f\<in>set fs. wf_frag f)" and ne: "mols \<noteq> []"
    using assms by (auto simp: wf_mols_def)
  have 1: "split_str '').('' (join '').('' (map (join ''.'') mols)) = map (join ''.'') mols"
    using wf ne by (intro split_join_mols) (auto simp: wf_frag_dot_paren)
  have 2: "split_str '').('' (join '').('' (map (\<lambda>fs. join ''.'' (map strip_labels fs)) mols))
         = map (\<lambda>fs. join ''.'' (map strip_labels fs)) mols"
    using wf ne by (intro split_join_mols) (auto simp: wf_frag_dot_paren wf_frag_strip)
  have 3: "pick (map (\<lambda>fs. join ''.'' (sort_frags fs)) mols)
             (sortorder (map (\<lambda>fs. bare_key (sort_frags fs)) mols))
         = Inr (map (join ''.'') (canon_mols mols))"
    using pick_sortorder [of "join ''.''" "map sort_frags mols" bare_key]
    by (simp add: canon_mols_def comp_def)
  show ?thesis
    unfolding canonicalize_template_def Let_def strip_labels_render_half
    by (simp add: render_half_def comp_def 1 2 3 sort_all_mols_wf [OF wf])
qed

lemma set_join: "set (join sep xs) \<subseteq> set sep \<union> \<Union> (set ` set xs)"
  by (induction sep xs rule: join.induct) auto

lemma no_gt_render_half:
  assumes "wf_mols mols"
  shows "CHR ''>'' \<notin> set (render_half mols)"
proof -
  have "\<And>fs. fs \<in> set mols \<Longrightarrow> CHR ''>'' \<notin> set (join ''.'' fs)"
    using assms set_join [of "''.''"] by (fastforce simp: wf_mols_def wf_frag_def)
  then have "CHR ''>'' \<notin> set (join '').('' (map (join ''.'') mols))"
    using set_join [of "'').(''" "map (join ''.'') mols"] by fastforce
  then show ?thesis by (simp add: render_half_def)
qed

lemma split_render_transform:
  assumes "wf_halves hs"
  shows "split_str ''>>'' (render_transform hs) = map render_half hs"
  unfolding render_transform_def
  using assms by (intro split_join_fresh) (auto simp: wf_halves_def no_gt_render_half)

lemma canonicalize_all_wf:
  "\<forall>mols\<in>set hs. wf_mols mols \<Longrightarrow>
   canonicalize_all (map render_half hs) = Inr (map (\<lambda>mols. render_half (canon_mols mols)) hs)"
  by (induction hs) (simp_all add: canonicalize_template_wf)

lemma transform_reordered_wf:
  assumes "wf_halves hs"
  shows "transform_reordered (render_transform hs) = Inr (render_transform (map canon_mols hs))"
proof -
  have "canonicalize_all (split_str ''>>'' (render_transform hs))
      = Inr (map (\<lambda>mols. render_half (canon_mols mols)) hs)"
    using assms by (simp add: split_render_transform canonicalize_all_wf wf_halves_def)
  then show ?thesis
    by (simp add: transform_reordered_def render_transform_def comp_def)
qed

lemma canonicalize_transform_wf:
  assumes "wf_halves hs"
  shows "canonicalize_transform (render_transform hs)
       = reassign_atom_mapping (render_transform (map canon_mols hs))"
  by (simp add: canonicalize_transform_def transform_reordered_wf [OF assms])

text \<open>Sorting keeps well-formedness.\<close>

lemma sort_key_Nil_iff [simp]: "sort_key k xs = [] \<longleftrightarrow> xs = []"
  using length_sort [of k xs] by (metis length_0_conv)

lemma wf_mols_canon: "wf_mols mols \<Longrightarrow> wf_mols (canon_mols mols)"
  by (auto simp: wf_mols_def canon_mols_def sort_frags_def)

lemma wf_halves_canon: "wf_halves hs \<Longrightarrow> wf_halves (map canon_mols hs)"
  by (auto simp: wf_halves_def wf_mols_canon)

text \<open>Sorting twice.\<close>

lemma sort_frags_idem: "sort_frags (sort_frags fs) = sort_frags fs"
  by (simp add: sort_frags_def sort_key_id_if_sorted)

lemma canon_mols_idem: "canon_mols (canon_mols mols) = canon_mols mols"
proof -
  have "map sort_frags (canon_mols mols) = canon_mols mols"
    by (rule map_idI) (auto simp: canon_mols_def sort_frags_idem)
  then show ?thesis
    by (simp add: canon_mols_def [of "canon_mols mols"])
      (simp add: canon_mols_def sort_key_id_if_sorted)
qed

text \<open>Relabelling and the structure of a template.\<close>

lemma relabel_render_half:
  "relabel g (render_half mols) = render_half (map (map (relabel g)) mols)"
  by (simp add: render_half_def relabel_parens relabel_join comp_def)

lemma relabel_render_transform:
  "relabel g (render_transform hs) = render_transform (map (map (map (relabel g))) hs)"
  by (simp add: render_transform_def relabel_join relabel_render_half comp_def)

lemma strip_labels_relabel:
  "(\<And>l. digits (g l)) \<Longrightarrow> strip_labels (relabel g s) = strip_labels s"
  by (simp add: strip_labels_def tokens_relabel)

lemma findall_labels_relabel:
  "(\<And>l. digits (g l)) \<Longrightarrow> findall_labels (relabel g s) = map g (findall_labels s)"
  by (simp add: findall_labels_def tokens_relabel)

lemma set_relabel:
  "(\<And>l. digits (g l)) \<Longrightarrow> set (relabel g f) \<subseteq> set f \<union> {c. is_digit c}"
proof (induction f rule: tokens_cases_induct)
  case Nil
  then show ?case by simp
next
  case (Label l r)
  have "set (g l) \<subseteq> {c. is_digit c}"
    using Label(3) [of l] by (auto simp: digits_def)
  then show ?case using Label by (auto simp: relabel_simps)
next
  case (Char c cs)
  then show ?case by (auto simp: relabel_simps)
qed

lemma take1_relabel: "take 1 (relabel g f) = ''('' \<longleftrightarrow> take 1 f = ''(''"
  by (induction f rule: tokens_cases_induct) (auto simp: relabel_simps)

lemma wf_frag_relabel:
  assumes "\<And>l. digits (g l)" "wf_frag f"
  shows "wf_frag (relabel g f)"
  using set_relabel [of g f, OF assms(1)] take1_relabel [of g f] assms(2)
  by (auto simp: wf_frag_def)

lemma wf_mols_relabel:
  "(\<And>l. digits (g l)) \<Longrightarrow> wf_mols mols \<Longrightarrow> wf_mols (map (map (relabel g)) mols)"
  by (auto simp: wf_mols_def wf_frag_relabel)

lemma wf_halves_relabel:
  "(\<And>l. digits (g l)) \<Longrightarrow> wf_halves hs \<Longrightarrow> wf_halves (map (map (map (relabel g))) hs)"
  by (auto simp: wf_halves_def wf_mols_relabel)

lemma sort_frags_relabel:
  assumes "\<And>l. digits (g l)"
  shows "sort_frags (map (relabel g) fs) = map (relabel g) (sort_frags fs)"
  using sort_key_map [of "relabel g" strip_labels fs]
  by (simp add: sort_frags_def strip_labels_relabel [OF assms])

lemma bare_key_relabel:
  assumes "\<And>l. digits (g l)"
  shows "bare_key (map (relabel g) fs) = bare_key fs"
  by (simp add: bare_key_def comp_def strip_labels_relabel [OF assms])

lemma canon_mols_relabel:
  assumes "\<And>l. digits (g l)"
  shows "canon_mols (map (map (relabel g)) mols) = map (map (relabel g)) (canon_mols mols)"
  using sort_key_map [of "map (relabel g)" bare_key "map sort_frags mols"]
  by (simp add: canon_mols_def comp_def sort_frags_relabel [OF assms] bare_key_relabel [OF assms])

lemma relabel_tokens_cong:
  "(\<And>l. l \<in> set (labels_of ts) \<Longrightarrow> f l = f' l) \<Longrightarrow> relabel_tokens f ts = relabel_tokens f' ts"
  by (induction ts rule: labels_of.induct) simp_all

lemma relabel_cong:
  "(\<And>l. l \<in> set (findall_labels s) \<Longrightarrow> f l = f' l) \<Longrightarrow> relabel f s = relabel f' s"
  using relabel_tokens_cong [of "tokens s" f f'] by (simp add: relabel_def findall_labels_def)

lemma relabel_tokens_comp:
  "relabel_tokens h (relabel_tokens g ts) = relabel_tokens (\<lambda>l. h (g l)) ts"
  by (induction ts rule: labels_of.induct) simp_all

lemma relabel_relabel:
  "(\<And>l. digits (g l)) \<Longrightarrow> relabel h (relabel g s) = relabel (\<lambda>l. h (g l)) s"
  by (simp add: relabel_def [of h] tokens_relabel relabel_tokens_comp) (simp add: relabel_def)

lemma first_rank_inj_map:
  assumes "inj_on g (set ls)" "l \<in> set ls"
  shows "first_rank (map g ls) (g l) = first_rank ls l"
proof -
  have "takeWhile (\<lambda>x. x \<noteq> g l) (map g ls) = map g (takeWhile (\<lambda>x. g x \<noteq> g l) ls)"
    by (simp add: takeWhile_map comp_def)
  also have "takeWhile (\<lambda>x. g x \<noteq> g l) ls = takeWhile (\<lambda>x. x \<noteq> l) ls"
    using assms by (intro takeWhile_cong) (auto dest: inj_onD)
  finally have "set (takeWhile (\<lambda>x. x \<noteq> g l) (map g ls)) = g ` set (takeWhile (\<lambda>x. x \<noteq> l) ls)"
    by simp
  moreover have "inj_on g (set (takeWhile (\<lambda>x. x \<noteq> l) ls))"
    using assms(1) by (rule inj_on_subset) (auto dest: set_takeWhileD)
  ultimately show ?thesis
    by (simp add: first_rank_def card_image)
qed

lemma reassign_relabel:
  assumes "inj_on g (set (findall_labels s))" "\<And>l. digits (g l)"
  shows "reassign_atom_mapping (relabel g s) = reassign_atom_mapping s"
proof -
  let ?ls = "findall_labels s"
  have "reassign_atom_mapping (relabel g s)
      = Inr (relabel (\<lambda>l. str_nat (first_rank (map g ?ls) l)) (relabel g s))"
    by (simp add: reassign_atom_mapping_relabel findall_labels_relabel [OF assms(2)])
  also have "relabel (\<lambda>l. str_nat (first_rank (map g ?ls) l)) (relabel g s)
      = relabel (\<lambda>l. str_nat (first_rank (map g ?ls) (g l))) s"
    using assms(2) by (rule relabel_relabel)
  also have "\<dots> = relabel (\<lambda>l. str_nat (first_rank ?ls l)) s"
    using assms(1) by (intro relabel_cong) (simp add: first_rank_inj_map)
  finally show ?thesis
    by (simp add: reassign_atom_mapping_relabel)
qed

lemma of_char_digit_char: "d < 10 \<Longrightarrow> of_char (digit_char d) = (48 + d :: nat)"
proof -
  assume "d < 10"
  then have "d \<in> {0, 1, 2, 3, 4, 5, 6, 7, 8, 9}" by auto
  then show ?thesis
    by (auto simp: digit_char_def)
qed

lemma digit_char_inj: "d < 10 \<Longrightarrow> e < 10 \<Longrightarrow> digit_char d = digit_char e \<Longrightarrow> d = e"
  using of_char_digit_char [of d] of_char_digit_char [of e] by (metis add_left_cancel)

lemma str_nat_small: "n < 10 \<Longrightarrow> str_nat n = [digit_char n]"
  by (subst str_nat.simps) simp

lemma str_nat_big: "\<not> n < 10 \<Longrightarrow> str_nat n = str_nat (n div 10) @ [digit_char (n mod 10)]"
  by (subst str_nat.simps) simp

lemma str_nat_ne [simp]: "str_nat n \<noteq> []" "[] \<noteq> str_nat n"
  by (cases "n < 10"; simp add: str_nat_small str_nat_big)+

lemma takeWhile_neq_length: "l \<in> set ls \<Longrightarrow> length (takeWhile (\<lambda>x. x \<noteq> l) ls) < length ls"
  by (induction ls) auto

lemma str_nat_inj: "str_nat m = str_nat n \<Longrightarrow> m = n"
proof (induction m arbitrary: n rule: str_nat.induct)
  case (1 m)
  show ?case
  proof (cases "m < 10")
    case True
    then have n: "n < 10"
      using 1(2) by (cases "n < 10") (simp_all add: str_nat_small str_nat_big)
    then show ?thesis using True 1(2) by (simp add: str_nat_small digit_char_inj)
  next
    case False
    then have n: "\<not> n < 10"
      using 1(2) by (cases "n < 10") (simp_all add: str_nat_small str_nat_big)
    then have "str_nat (m div 10) = str_nat (n div 10)" "digit_char (m mod 10) = digit_char (n mod 10)"
      using False 1(2) by (simp_all add: str_nat_big)
    then have "m div 10 = n div 10" "m mod 10 = n mod 10"
      using 1(1) [OF False] by (simp_all add: digit_char_inj)
    then show ?thesis by (metis div_mult_mod_eq)
  qed
qed

lemma first_rank_less:
  assumes "l \<in> set ls" "l' \<in> set ls"
    and lt: "length (takeWhile (\<lambda>x. x \<noteq> l) ls) < length (takeWhile (\<lambda>x. x \<noteq> l') ls)"
  shows "first_rank ls l < first_rank ls l'"
proof -
  let ?A = "takeWhile (\<lambda>x. x \<noteq> l) ls" and ?B = "takeWhile (\<lambda>x. x \<noteq> l') ls"
  have nA: "length ?A < length ls"
    using assms(1) by (simp add: takeWhile_neq_length)
  have lA: "ls ! length ?A = l"
    using nth_length_takeWhile [OF nA] by simp
  have A: "?A = take (length ?A) ls" and B: "?B = take (length ?B) ls"
    by (rule takeWhile_eq_take)+
  have "length ?B \<le> length ls" by (rule length_takeWhile_le)
  then have "l \<in> set (take (length ?B) ls)"
    using lt lA nA by (auto simp: in_set_conv_nth intro!: exI [of _ "length ?A"])
  then have "l \<in> set ?B" using B by simp
  moreover have "l \<notin> set ?A" by (auto dest: set_takeWhileD)
  moreover have "set ?A \<subseteq> set ?B"
    using set_take_subset_set_take [of "length ?A" "length ?B" ls] lt A B by simp
  ultimately have "set ?A \<subset> set ?B" by blast
  then have "card (set ?A) < card (set ?B)"
    by (intro psubset_card_mono) simp_all
  then show ?thesis by (simp add: first_rank_def)
qed

lemma first_rank_inj: "inj_on (first_rank ls) (set ls)"
proof (rule inj_onI)
  fix l l' assume l: "l \<in> set ls" "l' \<in> set ls" and eq: "first_rank ls l = first_rank ls l'"
  let ?A = "takeWhile (\<lambda>x. x \<noteq> l) ls" and ?B = "takeWhile (\<lambda>x. x \<noteq> l') ls"
  have len: "length ?A = length ?B"
    using first_rank_less [OF l(1) l(2)] first_rank_less [OF l(2) l(1)] eq
    by (cases "length ?A" "length ?B" rule: linorder_cases) simp_all
  have "length ?A < length ls"
    using l(1) by (rule takeWhile_neq_length)
  then have a: "ls ! length ?A = l"
    using nth_length_takeWhile [of "\<lambda>x. x \<noteq> l" ls] by simp
  have "length ?B < length ls"
    using l(2) by (rule takeWhile_neq_length)
  then have b: "ls ! length ?B = l'"
    using nth_length_takeWhile [of "\<lambda>x. x \<noteq> l'" ls] by simp
  have "l = ls ! length ?A" using a by (rule sym)
  also have "\<dots> = ls ! length ?B" by (simp only: len)
  also have "\<dots> = l'" by (rule b)
  finally show "l = l'" .
qed

lemma rank_label_inj: "inj_on (\<lambda>l. str_nat (first_rank ls l)) (set ls)"
  using first_rank_inj [of ls] by (auto simp: inj_on_def dest: str_nat_inj)

lemma half_ok_shape:
  assumes "half_ok h"
  shows "h = CHR ''('' # slice_inner h @ '')''"
proof -
  from assms have 1: "take 1 h = ''(''" "2 \<le> length h" "last h = CHR '')''"
    by (simp_all add: half_ok_def)
  then obtain r where h: "h = CHR ''('' # r" by (cases h) auto
  have "r \<noteq> []" using 1(2) h by auto
  moreover from this have "last r = CHR '')''" using 1(3) h by simp
  ultimately have "r = butlast r @ '')''" by (metis append_butlast_last_id)
  then show ?thesis using h by (simp add: slice_inner_def)
qed

lemma parse_half_wf:
  assumes "half_ok h"
  shows "wf_mols (parse_half h)"
proof -
  have "\<And>m f. m \<in> set (mols_of h) \<Longrightarrow> f \<in> set (split_str ''.'' m) \<Longrightarrow> wf_frag f"
    using assms split_str_fresh_pieces [of "''.''" "CHR ''.''"]
    by (auto simp: half_ok_def frag_ok_def wf_frag_def)
  then show ?thesis
    by (auto simp: wf_mols_def parse_half_def mols_of_def)
qed

lemma parse_half_mols: "map (join ''.'') (parse_half h) = mols_of h"
  by (simp add: parse_half_def comp_def join_split_str)

lemma render_parse_half:
  assumes "half_ok h"
  shows "render_half (parse_half h) = h"
proof -
  have "render_half (parse_half h) = CHR ''('' # join '').('' (mols_of h) @ '')''"
    by (simp add: render_half_def parse_half_mols)
  also have "join '').('' (mols_of h) = slice_inner h"
    by (simp add: mols_of_def join_split_str)
  finally show ?thesis using half_ok_shape [OF assms] by simp
qed

lemma transform_ok_struct:
  assumes "transform_ok t"
  shows "wf_halves (map parse_half (split_str ''>>'' t))"
    and "render_transform (map parse_half (split_str ''>>'' t)) = t"
proof -
  show "wf_halves (map parse_half (split_str ''>>'' t))"
    using assms by (auto simp: wf_halves_def transform_ok_def parse_half_wf)
  have "map (\<lambda>h. render_half (parse_half h)) (split_str ''>>'' t) = split_str ''>>'' t"
    using assms by (intro map_idI) (simp add: transform_ok_def render_parse_half)
  then show "render_transform (map parse_half (split_str ''>>'' t)) = t"
    by (simp add: render_transform_def comp_def join_split_str)
qed

lemma idempotent_struct:
  assumes "wf_halves hs"
  shows "\<exists>c. canonicalize_transform (render_transform hs) = Inr c
           \<and> canonicalize_transform c = Inr c"
proof -
  let ?S = "render_transform (map canon_mols hs)"
  let ?h = "\<lambda>l. str_nat (first_rank (findall_labels ?S) l)"
  let ?R = "relabel ?h ?S"
  have dig: "\<And>l. digits (?h l)" by simp
  have wfc: "wf_halves (map canon_mols hs)" using assms by (rule wf_halves_canon)
  have 1: "canonicalize_transform (render_transform hs) = Inr ?R"
    by (simp only: canonicalize_transform_wf [OF assms] reassign_atom_mapping_relabel)
  have "?R = render_transform (map (map (map (relabel ?h))) (map canon_mols hs))"
    by (rule relabel_render_transform)
  moreover have "wf_halves (map (map (map (relabel ?h))) (map canon_mols hs))"
    using dig wfc by (rule wf_halves_relabel)
  ultimately have "canonicalize_transform ?R
      = reassign_atom_mapping (render_transform
          (map canon_mols (map (map (map (relabel ?h))) (map canon_mols hs))))"
    by (simp only: canonicalize_transform_wf)
  also have "map canon_mols (map (map (map (relabel ?h))) (map canon_mols hs))
      = map (map (map (relabel ?h))) (map canon_mols hs)"
    by (simp add: comp_def canon_mols_relabel [of ?h, OF dig] canon_mols_idem)
  also have "render_transform (map (map (map (relabel ?h))) (map canon_mols hs)) = ?R"
    by (rule relabel_render_transform [symmetric])
  also have "reassign_atom_mapping ?R = reassign_atom_mapping ?S"
    using rank_label_inj dig by (rule reassign_relabel)
  also have "\<dots> = Inr ?R"
    by (rule reassign_atom_mapping_relabel)
  finally show ?thesis using 1 by blast
qed

lemma half_ok_no_gt:
  assumes "half_ok h"
  shows "split_str ''>>'' h = [h]"
proof -
  have "CHR ''>'' \<notin> set (render_half (parse_half h))"
    using assms by (intro no_gt_render_half parse_half_wf)
  then have "CHR ''>'' \<notin> set h"
    by (simp add: render_parse_half [OF assms])
  then show ?thesis by (intro split_str_fresh_single) simp_all
qed

lemma canonicalize_half:
  assumes "wf_mols mols"
  shows "canonicalize_transform (render_half mols)
       = reassign_atom_mapping (render_half (canon_mols mols))"
  using canonicalize_transform_wf [of "[mols]"] assms
  by (simp add: wf_halves_def render_transform_def)

lemma findall_labels_render_half:
  "findall_labels (render_half mols) = concat (map (\<lambda>fs. concat (map findall_labels fs)) mols)"
  by (simp add: render_half_def findall_labels_parens findall_labels_join comp_def)

lemma set_labels_canon:
  "set (findall_labels (render_half (canon_mols mols))) = set (findall_labels (render_half mols))"
  by (auto simp: findall_labels_render_half canon_mols_def sort_frags_def)

lemma mol_key_join:
  assumes "fs \<noteq> []" "\<forall>f\<in>set fs. wf_frag f"
  shows "mol_key (join ''.'' fs) = bare_key (sort_frags fs)"
proof -
  have "split_str ''.'' (strip_labels (join ''.'' fs)) = map strip_labels fs"
    using assms by (simp add: strip_labels_join split_join_frags wf_frag_strip)
  moreover have "sort (map strip_labels fs) = map strip_labels (sort_key strip_labels fs)"
    using sort_key_map [of strip_labels "\<lambda>x. x" fs] by simp
  ultimately show ?thesis
    by (simp add: mol_key_def bare_key_def sort_frags_def)
qed

lemma sort_key_perm:
  assumes "mset xs = mset ys" "distinct (map k ys)"
  shows "sort_key k xs = sort_key k ys"
proof (rule sort_key_inj_key_eq)
  show "mset xs = mset (sort_key k ys)" using assms(1) by simp
  have "set xs = set ys" using assms(1) by (rule mset_eq_setD)
  then show "inj_on k (set xs)" using assms(2) by (simp add: distinct_map)
  show "sorted (map k (sort_key k ys))" by simp
qed

lemma permuted_struct:
  assumes wf: "wf_mols M" and wf': "wf_mols M'"
    and perm: "mset M' = mset (map (map (relabel g)) M)"
    and dig: "\<And>l. digits (g l)"
    and inj: "inj_on g (set (findall_labels (render_half M)))"
    and dist: "distinct (map (\<lambda>fs. bare_key (sort_frags fs)) M)"
  shows "canonicalize_transform (render_half M') = canonicalize_transform (render_half M)"
proof -
  let ?RM = "map (map (relabel g)) M"
  have keys: "map bare_key (map sort_frags ?RM) = map (\<lambda>fs. bare_key (sort_frags fs)) M"
    by (simp add: comp_def sort_frags_relabel [OF dig] bare_key_relabel [OF dig])
  have "mset (map sort_frags M') = mset (map sort_frags ?RM)"
    using perm by (metis mset_map)
  moreover have "distinct (map bare_key (map sort_frags ?RM))"
    using dist by (simp only: keys)
  ultimately have "canon_mols M' = canon_mols ?RM"
    unfolding canon_mols_def by (rule sort_key_perm)
  also have "\<dots> = map (map (relabel g)) (canon_mols M)"
    using dig by (rule canon_mols_relabel)
  finally have "canonicalize_transform (render_half M')
      = reassign_atom_mapping (relabel g (render_half (canon_mols M)))"
    by (simp add: canonicalize_half [OF wf'] relabel_render_half)
  also have "\<dots> = reassign_atom_mapping (render_half (canon_mols M))"
    using inj dig by (intro reassign_relabel) (simp_all add: set_labels_canon)
  finally show ?thesis by (simp add: canonicalize_half [OF wf])
qed

lemma first_rank_le:
  assumes "l \<in> set ls"
  shows "first_rank ls l \<le> card (set ls)"
proof -
  have "set (takeWhile (\<lambda>x. x \<noteq> l) ls) \<subseteq> set ls - {l}"
    by (auto dest: set_takeWhileD)
  then have "card (set (takeWhile (\<lambda>x. x \<noteq> l) ls)) \<le> card (set ls - {l})"
    by (intro card_mono) simp_all
  also have "\<dots> < card (set ls)"
    using assms by (intro psubset_card_mono) auto
  finally show ?thesis by (simp add: first_rank_def)
qed

lemma first_rank_dense: "first_rank ls ` set ls = {1..card (set ls)}"
proof (rule card_subset_eq)
  show "finite {1..card (set ls)}" by simp
  show "first_rank ls ` set ls \<subseteq> {1..card (set ls)}"
    using first_rank_le [of _ ls] by (auto simp: first_rank_def)
  show "card (first_rank ls ` set ls) = card {1..card (set ls)}"
    by (simp add: card_image first_rank_inj)
qed

section \<open>The canonicalizer returns on every text\<close>

lemma length_split_dots: "length (split_str ''.'' s) = Suc (dots s)"
proof (induction s)
  case Nil
  then show ?case by (simp add: dots_def)
next
  case (Cons c s)
  show ?case
  proof (cases "c = CHR ''.''")
    case True
    then have "split_str ''.'' (c # s) = [] # split_str ''.'' s"
      using split_str_here [of "''.''" s] by simp
    then show ?thesis using Cons True by (simp add: dots_def)
  next
    case False
    then have "split_str ''.'' (c # s)
        = (c # hd (split_str ''.'' s)) # tl (split_str ''.'' s)"
      by (intro split_str_step) simp
    moreover have "length (tl (split_str ''.'' s)) = dots s"
      using Cons by simp
    ultimately show ?thesis using False by (simp add: dots_def)
  qed
qed

lemma mols_sep_iff:
  "take (length '').('') (c # s) = '').('' \<longleftrightarrow> c = CHR '')'' \<and> take 2 s = ''.(''"
  by (cases s; cases "tl s") auto

lemma split_mols_unstruct:
  assumes "\<forall>c\<in>set u. \<not> is_struct c"
  shows "split_str '').('' (u @ s)
       = (u @ hd (split_str '').('' s)) # tl (split_str '').('' s)"
  using assms
proof (induction u)
  case Nil
  then show ?case by simp
next
  case (Cons c u)
  then have "c \<noteq> CHR '')''" by (auto simp: is_struct_def)
  then have "take (length '').('') (c # u @ s) \<noteq> '').(''"
    by (simp only: mols_sep_iff) simp
  then have "split_str '').('' (c # u @ s)
      = (c # hd (split_str '').('' (u @ s))) # tl (split_str '').('' (u @ s))"
    by (rule split_str_step)
  then show ?case using Cons by simp
qed

lemma dots_unstruct: "\<forall>c\<in>set u. \<not> is_struct c \<Longrightarrow> dots u = 0"
  by (auto simp: dots_def is_struct_def filter_empty_conv)

lemma dots_append [simp]: "dots (a @ b) = dots a + dots b"
  by (simp add: dots_def)

lemma dots_simps [simp]:
  "dots [] = 0"
  "dots (c # s) = (if c = CHR ''.'' then Suc (dots s) else dots s)"
  by (simp_all add: dots_def)

lemma shape_prefix:
  assumes "\<forall>c\<in>set u. \<not> is_struct c"
  shows "map dots (split_str '').('' (u @ s)) = map dots (split_str '').('' s)"
proof -
  obtain p ps where "split_str '').('' s = p # ps"
    by (cases "split_str '').('' s") auto
  then show ?thesis
    using split_mols_unstruct [OF assms, of s] dots_unstruct [OF assms] by simp
qed

lemma shape_suffix:
  assumes "\<forall>c\<in>set v. \<not> is_struct c"
  shows "map dots (split_str '').('' (s @ v)) = map dots (split_str '').('' s)"
proof (induction s rule: length_induct)
  case (1 s)
  show ?case
  proof (cases s)
    case Nil
    have "map dots (split_str '').('' ([] @ v)) = map dots (split_str '').('' [])"
      unfolding append_Nil [of v, symmetric, THEN sym] 
      using shape_prefix [OF assms, of "[]"] by simp
    then show ?thesis using Nil by simp
  next
    case (Cons c r)
    show ?thesis
    proof (cases "take (length '').('') (c # r) = '').(''")
      case True
      then obtain r' where r: "r = ''.('' @ r'" and c: "c = CHR '')''"
        by (cases r; cases "tl r") auto
      have "length r' < length s" using Cons r by simp
      then have "map dots (split_str '').('' (r' @ v)) = map dots (split_str '').('' r')"
        using 1 by blast
      then show ?thesis
        using Cons r c split_str_here [of "'').(''" "r' @ v"] split_str_here [of "'').(''" r']
        by simp
    next
      case False
      have "take 2 (r @ v) = ''.('' \<Longrightarrow> take 2 r = ''.(''"
        using assms by (cases r; cases "tl r"; cases v) (auto simp: is_struct_def)
      then have F': "take (length '').('') (c # r @ v) \<noteq> '').(''"
        using False by (simp only: mols_sep_iff) blast
      have "length r < length s" using Cons by simp
      then have IH: "map dots (split_str '').('' (r @ v)) = map dots (split_str '').('' r)"
        using 1 by blast
      obtain p ps where p: "split_str '').('' r = p # ps"
        by (cases "split_str '').('' r") auto
      obtain q qs where q: "split_str '').('' (r @ v) = q # qs"
        by (cases "split_str '').('' (r @ v)") auto
      show ?thesis
        using Cons split_str_step [OF False] split_str_step [OF F'] IH p q
        by simp
    qed
  qed
qed

lemma plain_Cons [simp]:
  "plain r (Chr c # ts) = plain r ts"
  "plain r (Lab l # ts) = (r l \<noteq> [] \<and> (\<forall>c\<in>set (r l). \<not> is_struct c) \<and> plain r ts)"
  by (auto simp: plain_def)

lemma plain_Nil [simp]: "plain r []"
  by (simp add: plain_def)

lemma render_with_dot_paren:
  assumes "plain r ts" "take 2 (render_with r ts) = ''.(''"
  shows "\<exists>ts'. ts = Chr CHR ''.'' # Chr CHR ''('' # ts'"
proof (cases ts)
  case Nil
  then show ?thesis using assms by simp
next
  case (Cons t ts1)
  show ?thesis
  proof (cases t)
    case (Lab l)
    then have "r l \<noteq> []" "\<not> is_struct (hd (r l))"
      using assms(1) Cons by auto
    then show ?thesis using assms(2) Cons Lab
      by (cases "r l") (auto simp: is_struct_def)
  next
    case (Chr c)
    then have c: "c = CHR ''.''" and 1: "take 1 (render_with r ts1) = ''(''"
      using assms(2) Cons by (auto split: list.splits simp: take_Suc_conv_app_nth)
    show ?thesis
    proof (cases ts1)
      case Nil
      then show ?thesis using 1 by simp
    next
      case (Cons t2 ts2)
      show ?thesis
      proof (cases t2)
        case (Lab l)
        then have "r l \<noteq> []" "\<not> is_struct (hd (r l))"
          using assms(1) \<open>ts = t # ts1\<close> Chr Cons by auto
        then show ?thesis using 1 Cons Lab
          by (cases "r l") (auto simp: is_struct_def)
      next
        case (Chr c2)
        then show ?thesis using 1 Cons c \<open>ts = t # ts1\<close> \<open>t = Chr c\<close> by simp
      qed
    qed
  qed
qed

lemma shape_render_with:
  assumes "plain r1 ts" "plain r2 ts"
  shows "map dots (split_str '').('' (render_with r1 ts))
       = map dots (split_str '').('' (render_with r2 ts))"
  using assms
proof (induction ts rule: length_induct)
  case (1 ts)
  show ?case
  proof (cases ts)
    case Nil
    then show ?thesis by simp
  next
    case (Cons t ts1)
    have IH1: "map dots (split_str '').('' (render_with r1 ts1))
        = map dots (split_str '').('' (render_with r2 ts1))"
      using 1 Cons by (cases t) auto
    show ?thesis
    proof (cases t)
      case (Lab l)
      then have "\<forall>c\<in>set (r1 l). \<not> is_struct c" "\<forall>c\<in>set (r2 l). \<not> is_struct c"
        using 1(2,3) Cons by auto
      then show ?thesis
        using Cons Lab IH1 by (simp add: shape_prefix)
    next
      case (Chr c)
      show ?thesis
      proof (cases "c = CHR '')'' \<and> take 2 (render_with r1 ts1) = ''.(''")
        case True
        then obtain ts' where ts': "ts1 = Chr CHR ''.'' # Chr CHR ''('' # ts'"
          using render_with_dot_paren [of r1 ts1] 1(2) Cons Chr by auto
        then have "length ts' < length ts" "plain r1 ts'" "plain r2 ts'"
          using 1(2,3) Cons Chr by auto
        then have "map dots (split_str '').('' (render_with r1 ts'))
            = map dots (split_str '').('' (render_with r2 ts'))"
          using 1(1) by blast
        then show ?thesis
          using Cons Chr True ts'
            split_str_here [of "'').(''" "render_with r1 ts'"]
            split_str_here [of "'').(''" "render_with r2 ts'"]
          by simp
      next
        case False
        have "\<not> (c = CHR '')'' \<and> take 2 (render_with r2 ts1) = ''.('')"
        proof
          assume a: "c = CHR '')'' \<and> take 2 (render_with r2 ts1) = ''.(''"
          then obtain ts' where "ts1 = Chr CHR ''.'' # Chr CHR ''('' # ts'"
            using render_with_dot_paren [of r2 ts1] 1(3) Cons Chr by auto
          then show False using False a by simp
        qed
        then have F2: "take (length '').('') (c # render_with r2 ts1) \<noteq> '').(''"
          by (simp only: mols_sep_iff) simp
        have F1: "take (length '').('') (c # render_with r1 ts1) \<noteq> '').(''"
          using False by (simp only: mols_sep_iff) simp
        obtain p ps where p: "split_str '').('' (render_with r1 ts1) = p # ps"
          by (cases "split_str '').('' (render_with r1 ts1)") auto
        obtain q qs where q: "split_str '').('' (render_with r2 ts1) = q # qs"
          by (cases "split_str '').('' (render_with r2 ts1)") auto
        show ?thesis
          using Cons Chr split_str_step [OF F1] split_str_step [OF F2] IH1 p q by simp
      qed
    qed
  qed
qed

lemma render_with_append [simp]:
  "render_with r (ts @ us) = render_with r ts @ render_with r us"
  by (induction r ts rule: render_with.induct) simp_all

lemma plain_append [simp]: "plain r (ts @ us) \<longleftrightarrow> plain r ts \<and> plain r us"
  by (auto simp: plain_def)

lemma plain_tail: "plain r (t # ts) \<Longrightarrow> plain r ts"
  by (cases t) simp_all

lemma plain_butlast_tl: "plain r ts \<Longrightarrow> plain r (butlast (tl ts))"
proof (cases ts)
  case Nil
  then show ?thesis by simp
next
  case (Cons t ts1)
  assume "plain r ts"
  then have p: "plain r ts1" using Cons by (auto dest: plain_tail)
  show ?thesis
  proof (cases "ts1 = []")
    case True
    then show ?thesis using Cons by simp
  next
    case False
    then have "ts1 = butlast ts1 @ [last ts1]" by simp
    then have "plain r (butlast ts1)" using p by (metis plain_append)
    then show ?thesis using Cons by simp
  qed
qed

lemma shape_unstruct:
  assumes "\<forall>c\<in>set u. \<not> is_struct c"
  shows "map dots (split_str '').('' u) = [0]"
  using shape_prefix [OF assms, of "[]"] by simp

lemma slice_render_shape:
  assumes "plain r ts"
  shows "map dots (split_str '').('' (slice_inner (render_with r ts)))
       = (if length ts \<le> 1 then [0]
          else map dots (split_str '').('' (render_with r (butlast (tl ts)))))"
proof (cases ts)
  case Nil
  then show ?thesis by (simp add: slice_inner_def)
next
  case (Cons t ts1)
  obtain u where u: "tl (render_with r ts) = u @ render_with r ts1"
    "\<forall>c\<in>set u. \<not> is_struct c"
  proof (cases t)
    case (Chr c)
    then show ?thesis using Cons that [of "[]"] by simp
  next
    case (Lab l)
    then have "r l \<noteq> []" "\<forall>c\<in>set (tl (r l)). \<not> is_struct c"
      using assms Cons by (auto dest: list.set_sel(2))
    then show ?thesis using Cons Lab that [of "tl (r l)"] by simp
  qed
  show ?thesis
  proof (cases "ts1 = []")
    case True
    then have "slice_inner (render_with r ts) = butlast u"
      using u(1) by (simp add: slice_inner_def)
    moreover have "\<forall>c\<in>set (butlast u). \<not> is_struct c"
      using u(2) by (auto dest: in_set_butlastD)
    ultimately show ?thesis using True Cons by (simp add: shape_unstruct)
  next
    case False
    then obtain ts2 t' where ts2: "ts1 = ts2 @ [t']"
      by (metis append_butlast_last_id)
    obtain w where w: "render_with r [t'] = w" "w \<noteq> []"
      "\<forall>c\<in>set (butlast w). \<not> is_struct c"
    proof (cases t')
      case (Chr c)
      then show ?thesis using that [of "[c]"] by simp
    next
      case (Lab l)
      have "plain r ts1" using assms Cons by (auto dest: plain_tail)
      then have "plain r [Lab l]" using ts2 Lab by simp
      then have "r l \<noteq> []" "\<forall>c\<in>set (butlast (r l)). \<not> is_struct c"
        by (auto dest: in_set_butlastD)
      then show ?thesis using Lab that [of "r l"] by simp
    qed
    have "slice_inner (render_with r ts) = butlast (u @ render_with r ts2 @ w)"
      using u(1) ts2 w(1) by (simp add: slice_inner_def)
    also have "\<dots> = u @ render_with r ts2 @ butlast w"
      using w(2) by (simp add: butlast_append)
    finally have "map dots (split_str '').('' (slice_inner (render_with r ts)))
        = map dots (split_str '').('' (render_with r ts2))"
      using shape_prefix [OF u(2)] shape_suffix [OF w(3)] by simp
    then show ?thesis using Cons ts2 by simp
  qed
qed

lemma labels_digits: "\<forall>l\<in>set (labels_of (tokens s)). digits l"
  by (induction s rule: tokens_cases_induct) (simp_all add: tokens_Chr)

lemma strip_tokens_render_with: "strip_tokens ts = render_with (\<lambda>l. '']'') ts"
  by (induction ts rule: strip_tokens.induct) simp_all

lemma render_render_with: "render ts = render_with (\<lambda>l. CHR '':'' # l @ '']'') ts"
  by (induction ts rule: render.induct) simp_all

lemma digit_not_struct: "is_digit c \<Longrightarrow> \<not> is_struct c"
  by (auto simp: is_digit_def is_struct_def)

lemma plain_tokens:
  "plain (\<lambda>l. '']'') (tokens s)" "plain (\<lambda>l. CHR '':'' # l @ '']'') (tokens s)"
proof -
  show "plain (\<lambda>l. '']'') (tokens s)"
    by (simp add: plain_def is_struct_def)
  have "\<And>l c. digits l \<Longrightarrow> c \<in> set l \<Longrightarrow> \<not> is_struct c"
    by (simp add: digits_def digit_not_struct)
  then show "plain (\<lambda>l. CHR '':'' # l @ '']'') (tokens s)"
    using labels_digits [of s] by (auto simp: plain_def is_struct_def)
qed

lemma mols_same_shape:
  "map dots (split_str '').('' (slice_inner (strip_labels template)))
     = map dots (split_str '').('' (slice_inner template))"
proof -
  let ?ts = "tokens template"
  let ?r = "\<lambda>l. CHR '':'' # l @ '']''"
  have "map dots (split_str '').('' (slice_inner (render_with (\<lambda>l. '']'') ?ts)))
      = map dots (split_str '').('' (slice_inner (render_with ?r ?ts)))"
    using plain_tokens [of template]
    by (simp add: slice_render_shape shape_render_with plain_butlast_tl)
  moreover have "render_with (\<lambda>l. '']'') ?ts = strip_labels template"
    by (simp only: strip_labels_def strip_tokens_render_with)
  moreover have "render_with ?r ?ts = template"
    using render_render_with [of ?ts] by (simp only: render_tokens)
  ultimately show ?thesis by (simp only:)
qed

lemma sortorder_bound: "j \<in> set (sortorder xs) \<Longrightarrow> j < length xs"
  by (auto simp: sortorder_def in_set_enumerate_eq)

lemma pick_sortorder_total:
  assumes "length xs \<le> length ys"
  shows "\<exists>r. pick ys (sortorder xs) = Inr r \<and> length r = length xs"
proof -
  have "\<forall>j\<in>set (sortorder xs). j < length ys"
    using assms sortorder_bound [of _ xs] by fastforce
  then have "pick ys (sortorder xs) = Inr (map ((!) ys) (sortorder xs))"
    by (rule pick_all)
  then show ?thesis by (simp add: sortorder_def)
qed

lemma sort_mol_frags_total:
  assumes "dots n = dots m"
  shows "\<exists>n' m'. sort_mol_frags n m = Inr (n', m')"
proof -
  have len: "length (split_str ''.'' n) = length (split_str ''.'' m)"
    using assms by (simp add: length_split_dots)
  obtain ns where ns: "pick (split_str ''.'' n) (sortorder (split_str ''.'' n)) = Inr ns"
    using pick_sortorder_total [of "split_str ''.'' n" "split_str ''.'' n"] by auto
  obtain ms where ms: "pick (split_str ''.'' m) (sortorder (split_str ''.'' n)) = Inr ms"
    using pick_sortorder_total [of "split_str ''.'' n" "split_str ''.'' m"] len by auto
  show ?thesis
    by (simp add: sort_mol_frags_def ns ms)
qed

lemma sort_all_mols_total:
  assumes "map dots ns = map dots ms"
  shows "\<exists>ns' ms'. sort_all_mols ns ms = Inr (ns', ms') \<and> length ns' = length ms'"
  using assms
proof (induction ns ms rule: sort_all_mols.induct)
  case (1 ns)
  then show ?case by simp
next
  case (2 m ms)
  then show ?case by simp
next
  case (3 n ns m ms)
  then have d: "dots n = dots m" and rest: "map dots ns = map dots ms" by simp_all
  obtain n' m' where nm: "sort_mol_frags n m = Inr (n', m')"
    using sort_mol_frags_total [OF d] by blast
  obtain ns' ms' where r: "sort_all_mols ns ms = Inr (ns', ms')" "length ns' = length ms'"
    using 3(1) [OF nm refl rest] by blast
  show ?case by (simp add: nm r)
qed

lemma canonicalize_template_total: "\<exists>r. canonicalize_template template = Inr r"
proof -
  obtain ns' ms' where s: "sort_all_mols (split_str '').('' (slice_inner (strip_labels template)))
      (split_str '').('' (slice_inner template)) = Inr (ns', ms')" "length ns' = length ms'"
    using sort_all_mols_total [OF mols_same_shape] by blast
  obtain r where "pick ms' (sortorder ns') = Inr r"
    using pick_sortorder_total [of ns' ms'] s(2) by auto
  then show ?thesis
    by (simp add: canonicalize_template_def s(1))
qed

lemma canonicalize_all_total: "\<exists>rs. canonicalize_all xs = Inr rs"
proof (induction xs)
  case Nil
  then show ?case by simp
next
  case (Cons x xs)
  obtain y where "canonicalize_template x = Inr y"
    using canonicalize_template_total by blast
  then show ?case using Cons by auto
qed

lemma transform_reordered_total: "\<exists>r. transform_reordered transform = Inr r"
proof -
  obtain rs where "canonicalize_all (split_str ''>>'' transform) = Inr rs"
    using canonicalize_all_total by blast
  then show ?thesis by (simp add: transform_reordered_def)
qed

section \<open>Claims on the Template Canonicalizer\<close>

text \<open>
  Claim C5. For every text \<open>transform\<close>, both halves are canonicalized and joined
  without an exception (\<open>transform_reordered\<close> returns), and \<open>canonicalize_transform\<close>
  returns that text with nothing changed but the label numbers (the text without
  labels is the same). The labels of the result, read from left to right, are the
  decimal numbers of the original labels by first appearance: a label gets one more
  than the number of distinct labels in front of its first occurrence, so every
  occurrence of a label gets the same number, and the numbers used are exactly
  \<open>1..K\<close> for \<open>K\<close> distinct labels.
\<close>

theorem reassign_dense_first_appearance:
  "\<exists>reordered final.
      transform_reordered transform = Inr reordered
    \<and> canonicalize_transform transform = Inr final
    \<and> strip_labels final = strip_labels reordered
    \<and> findall_labels final
        = map (\<lambda>l. str_nat (first_rank (findall_labels reordered) l))
            (findall_labels reordered)
    \<and> first_rank (findall_labels reordered) ` set (findall_labels reordered)
        = {1..card (set (findall_labels reordered))}"
proof -
  obtain reordered where r: "transform_reordered transform = Inr reordered"
    using transform_reordered_total by blast
  let ?h = "\<lambda>l. str_nat (first_rank (findall_labels reordered) l)"
  have "canonicalize_transform transform = Inr (relabel ?h reordered)"
    by (simp add: canonicalize_transform_def r reassign_atom_mapping_relabel)
  moreover have "strip_labels (relabel ?h reordered) = strip_labels reordered"
    by (rule strip_labels_relabel) simp
  moreover have "findall_labels (relabel ?h reordered) = map ?h (findall_labels reordered)"
    by (rule findall_labels_relabel) simp
  ultimately show ?thesis
    using r by (simp add: first_rank_dense)
qed

text \<open>
  Claim C4. For every transform in the template format (\<open>transform_ok\<close>: each side a
  parenthesised list of molecules whose fragment strings contain no \<open>>\<close> and do not
  begin with an opening parenthesis), \<open>canonicalize_transform\<close> returns a text, and
  applied to that canonical text it returns the same text again.
\<close>

theorem canonicalize_transform_idempotent:
  assumes "transform_ok t"
  shows "\<exists>c. canonicalize_transform t = Inr c \<and> canonicalize_transform c = Inr c"
  using idempotent_struct [OF transform_ok_struct(1) [OF assms]]
  by (simp add: transform_ok_struct(2) [OF assms])

theorem canonicalize_transform_idempotent_witness:
  "transform_ok ''([C:5][O:3]).([B:7])>>([C:3][N:5])'' \<and>
   (\<exists>c. canonicalize_transform ''([C:5][O:3]).([B:7])>>([C:3][N:5])'' = Inr c
        \<and> canonicalize_transform c = Inr c)"
proof -
  have h: "transform_ok ''([C:5][O:3]).([B:7])>>([C:3][N:5])''"
    by code_simp
  show ?thesis
    using h canonicalize_transform_idempotent [OF h] by simp
qed

text \<open>
  Claim C3, as stated, fails: the sort is by label-stripped text only and it is stable,
  so two molecules with the same label-stripped text stay in their input order. The
  half \<open>([CH3:1][OH]).([CH3][OH:2])\<close> (two methanol fragments, the carbon mapped in
  one, the oxygen in the other) and the same two molecules in the other order get
  different canonical texts.
\<close>

theorem canonical_text_permutation_counterexample:
  "mset (mols_of ''([CH3][OH:2]).([CH3:1][OH])'')
     = mset (mols_of ''([CH3:1][OH]).([CH3][OH:2])'')
   \<and> canonicalize_transform ''([CH3:1][OH]).([CH3][OH:2])''
       = Inr ''([CH3:1][OH]).([CH3][OH:2])''
   \<and> canonicalize_transform ''([CH3][OH:2]).([CH3:1][OH])''
       = Inr ''([CH3][OH:1]).([CH3:2][OH])''
   \<and> canonicalize_transform ''([CH3][OH:2]).([CH3:1][OH])''
       \<noteq> canonicalize_transform ''([CH3:1][OH]).([CH3][OH:2])''"
proof -
  have 1: "mols_of ''([CH3:1][OH]).([CH3][OH:2])'' = [''[CH3:1][OH]'', ''[CH3][OH:2]'']"
    by code_simp
  have 2: "mols_of ''([CH3][OH:2]).([CH3:1][OH])'' = [''[CH3][OH:2]'', ''[CH3:1][OH]'']"
    by code_simp
  have 3: "canonicalize_transform ''([CH3:1][OH]).([CH3][OH:2])''
      = Inr ''([CH3:1][OH]).([CH3][OH:2])''"
    by code_simp
  have 4: "canonicalize_transform ''([CH3][OH:2]).([CH3:1][OH])''
      = Inr ''([CH3][OH:1]).([CH3:2][OH])''"
    by code_simp
  show ?thesis
    unfolding 1 2 3 4 by simp
qed

text \<open>
  Claim C3, amended. Let \<open>h\<close> be a template half in the template format whose
  molecules have pairwise distinct sort keys (label-stripped text after the
  intramolecular sort), and let \<open>h'\<close> be a copy of it, also in the template format,
  whose molecules are those of \<open>h\<close> in any order with the labels renamed by a map
  \<open>g\<close> that is injective on the labels of \<open>h\<close> and yields labels. Then the
  canonicalizer (two-level sort, then renumbering) gives the same result for both.
\<close>

theorem canonical_text_permutation_invariant:
  assumes ok: "half_ok h" and ok': "half_ok h'"
    and copy: "mset (mols_of h') = mset (map (relabel g) (mols_of h))"
    and inj: "inj_on g (set (findall_labels h))"
    and dig: "\<forall>l\<in>set (findall_labels h). digits (g l)"
    and dist: "distinct (map mol_key (mols_of h))"
  shows "canonicalize_transform h' = canonicalize_transform h"
proof -
  let ?M = "parse_half h" and ?M' = "parse_half h'"
  let ?g = "\<lambda>l. if l \<in> set (findall_labels h) then g l else ''0''"
  have wf: "wf_mols ?M" and wf': "wf_mols ?M'"
    using ok ok' by (simp_all add: parse_half_wf)
  have h: "render_half ?M = h" and h': "render_half ?M' = h'"
    using ok ok' by (simp_all add: render_parse_half)
  have dig': "\<And>l. digits (?g l)"
    using dig by (simp add: digits_def is_digit_def)
  have inj': "inj_on ?g (set (findall_labels (render_half ?M)))"
    using inj by (simp add: h inj_on_def)
  have lab: "\<And>fs f. fs \<in> set ?M \<Longrightarrow> f \<in> set fs \<Longrightarrow> set (findall_labels f) \<subseteq> set (findall_labels h)"
    using findall_labels_render_half [of ?M] by (auto simp: h)
  have rel: "\<And>fs. fs \<in> set ?M \<Longrightarrow> relabel g (join ''.'' fs) = join ''.'' (map (relabel ?g) fs)"
  proof -
    fix fs assume fs: "fs \<in> set ?M"
    have "map (relabel g) fs = map (relabel ?g) fs"
      using lab [OF fs] by (intro map_cong refl relabel_cong) auto
    moreover have "relabel g (join ''.'' fs) = join ''.'' (map (relabel g) fs)"
      by (simp add: relabel_join)
    ultimately show "relabel g (join ''.'' fs) = join ''.'' (map (relabel ?g) fs)"
      by (simp only:)
  qed
  define RM where "RM = map (map (relabel ?g)) ?M"
  have "map (relabel g) (mols_of h) = map (join ''.'') RM"
    using rel by (simp add: RM_def parse_half_mols [symmetric] comp_def)
  then have a: "mset (mols_of h') = mset (map (join ''.'') RM)"
    using copy by simp
  have "wf_mols RM"
    unfolding RM_def using dig' wf by (rule wf_mols_relabel)
  then have "\<And>fs. fs \<in> set RM \<Longrightarrow> split_str ''.'' (join ''.'' fs) = fs"
    by (intro split_join_frags) (auto simp: wf_mols_def)
  then have "map (\<lambda>fs. split_str ''.'' (join ''.'' fs)) RM = RM"
    by (rule map_idI)
  then have b: "map (split_str ''.'') (map (join ''.'') RM) = RM"
    by (simp only: map_map comp_def)
  have "mset ?M' = image_mset (split_str ''.'') (mset (mols_of h'))"
    by (simp only: parse_half_def mset_map)
  also have "\<dots> = mset (map (split_str ''.'') (map (join ''.'') RM))"
    by (simp only: a mset_map)
  finally have "mset ?M' = mset RM"
    by (simp only: b)
  then have perm: "mset ?M' = mset (map (map (relabel ?g)) ?M)"
    by (simp only: RM_def)
  have "map mol_key (mols_of h) = map (\<lambda>fs. bare_key (sort_frags fs)) ?M"
    using wf by (simp add: parse_half_mols [symmetric] mol_key_join wf_mols_def)
  then have dist': "distinct (map (\<lambda>fs. bare_key (sort_frags fs)) ?M)"
    using dist by simp
  show ?thesis
    using permuted_struct [OF wf wf' perm dig' inj' dist'] by (simp add: h h')
qed

theorem canonical_text_permutation_invariant_witness:
  "half_ok ''([C:1][O:2]).([N:3])'' \<and> half_ok ''([N:7]).([C:5][O:2])''
   \<and> mset (mols_of ''([N:7]).([C:5][O:2])'')
       = mset (map (relabel (\<lambda>l. if l = ''1'' then ''5'' else if l = ''3'' then ''7'' else l))
                (mols_of ''([C:1][O:2]).([N:3])''))
   \<and> inj_on (\<lambda>l. if l = ''1'' then ''5'' else if l = ''3'' then ''7'' else l)
        (set (findall_labels ''([C:1][O:2]).([N:3])''))
   \<and> list_all (\<lambda>l. digits (if l = ''1'' then ''5'' else if l = ''3'' then ''7'' else l))
        (findall_labels ''([C:1][O:2]).([N:3])'')
   \<and> distinct (map mol_key (mols_of ''([C:1][O:2]).([N:3])''))
   \<and> canonicalize_transform ''([N:7]).([C:5][O:2])''
       = canonicalize_transform ''([C:1][O:2]).([N:3])''"
proof -
  let ?g = "\<lambda>l. if l = ''1'' then ''5'' else if l = ''3'' then ''7'' else l"
  have ok: "half_ok ''([C:1][O:2]).([N:3])''" and ok': "half_ok ''([N:7]).([C:5][O:2])''"
    by code_simp+
  have m: "mols_of ''([C:1][O:2]).([N:3])'' = [''[C:1][O:2]'', ''[N:3]'']"
    and m': "mols_of ''([N:7]).([C:5][O:2])'' = [''[N:7]'', ''[C:5][O:2]'']"
    by code_simp+
  have r: "relabel ?g ''[C:1][O:2]'' = ''[C:5][O:2]''" "relabel ?g ''[N:3]'' = ''[N:7]''"
    by code_simp+
  have copy: "mset (mols_of ''([N:7]).([C:5][O:2])'')
       = mset (map (relabel ?g) (mols_of ''([C:1][O:2]).([N:3])''))"
    unfolding m m' by (simp add: r)
  have l: "findall_labels ''([C:1][O:2]).([N:3])'' = [''1'', ''2'', ''3'']"
    by code_simp
  have inj: "inj_on ?g (set (findall_labels ''([C:1][O:2]).([N:3])''))"
    unfolding l by simp
  have dig: "\<forall>l\<in>set (findall_labels ''([C:1][O:2]).([N:3])''). digits (?g l)"
    unfolding l by (simp add: digits_def is_digit_def)
  have dist: "distinct (map mol_key (mols_of ''([C:1][O:2]).([N:3])''))"
    by code_simp
  have dig': "list_all (\<lambda>l. digits (?g l)) (findall_labels ''([C:1][O:2]).([N:3])'')"
    using dig by (simp only: list_all_iff)
  show ?thesis
    using ok ok' copy inj dig' dist
      canonical_text_permutation_invariant [OF ok ok' copy inj dig dist]
    by blast
qed

section \<open>Properties of the Neighborhood Expander\<close>

lemma get_special_groups_super_general [simp]:
  "get_special_groups matcher True m = []"
  by (simp add: get_special_groups_def)

lemma expand_atom_cases:
  assumes "expand_atoms_to_use_atom True m atoms n [] reps = Inr state'"
  shows "(n \<in> set atoms \<and> state' = (atoms, reps))
       \<or> (n \<notin> set atoms \<and> (\<exists>a w. get_atom_with_idx m n = Inr a
              \<and> convert_atom_to_wildcard True a = Inr w
              \<and> state' = (atoms @ [n], reps @ [(n, w)])))"
  using assms
  by (auto simp: expand_atoms_to_use_atom_def split: if_splits sum.splits)

lemma expand_atom_no_groups:
  assumes "expand_atoms_to_use_atom True m atoms n [] reps = Inr state'"
    and "overridden m atoms0 (atoms, reps)"
  shows "overridden m atoms0 state' \<and> set (fst state') = insert n (set atoms)"
proof -
  from expand_atom_cases [OF assms(1)] show ?thesis
  proof
    assume "n \<in> set atoms \<and> state' = (atoms, reps)"
    then show ?thesis using assms(2) by auto
  next
    assume "n \<notin> set atoms \<and> (\<exists>a w. get_atom_with_idx m n = Inr a
              \<and> convert_atom_to_wildcard True a = Inr w
              \<and> state' = (atoms @ [n], reps @ [(n, w)]))"
    then obtain a w where aw: "get_atom_with_idx m n = Inr a"
      "convert_atom_to_wildcard True a = Inr w" "state' = (atoms @ [n], reps @ [(n, w)])"
      by blast
    have "overridden m atoms0 state'"
      unfolding overridden_def
    proof
      fix i assume i: "i \<in> set (fst state') - set atoms0"
      show "\<exists>a w. get_atom_with_idx m i = Inr a \<and> convert_atom_to_wildcard True a = Inr w
             \<and> (i, w) \<in> set (snd state')"
      proof (cases "i = n")
        case True
        then show ?thesis using aw by auto
      next
        case False
        then have "i \<in> set atoms - set atoms0" using i aw(3) by auto
        with assms(2) have "\<exists>a w. get_atom_with_idx m i = Inr a
             \<and> convert_atom_to_wildcard True a = Inr w \<and> (i, w) \<in> set reps"
          unfolding overridden_def fst_conv snd_conv by (rule bspec)
        then show ?thesis using aw(3) by auto
      qed
    qed
    then show ?thesis using aw(3) by simp
  qed
qed

lemma expand_neighbors_no_groups:
  assumes "expand_neighbors True m ns [] state = Inr state'"
    and "overridden m atoms0 state"
  shows "overridden m atoms0 state' \<and> set (fst state') = set (fst state) \<union> set ns"
  using assms
proof (induction ns arbitrary: state)
  case Nil
  then show ?case by simp
next
  case (Cons n ns)
  obtain atoms reps where state: "state = (atoms, reps)" by (cases state)
  from Cons.prems(1) obtain mid where
    mid: "expand_atoms_to_use_atom True m atoms n [] reps = Inr mid"
    and rest: "expand_neighbors True m ns [] mid = Inr state'"
    by (auto simp: state split: sum.splits)
  have "overridden m atoms0 mid \<and> set (fst mid) = insert n (set atoms)"
    using mid Cons.prems(2) unfolding state by (rule expand_atom_no_groups)
  then show ?case
    using Cons.IH [OF rest] by (auto simp: state)
qed

lemma expand_atoms_no_groups:
  assumes "expand_atoms True m as atoms0 [] state = Inr state'"
    and "overridden m atoms0 state"
  shows "overridden m atoms0 state'
       \<and> set (fst state') = set (fst state)
            \<union> (\<Union>a\<in>{a \<in> set as. idx a \<in> set atoms0}. set (neighbors a))"
  using assms
proof (induction as arbitrary: state)
  case Nil
  then show ?case by simp
next
  case (Cons a as)
  show ?case
  proof (cases "idx a \<in> set atoms0")
    case False
    then show ?thesis using Cons by auto
  next
    case True
    from Cons.prems(1) True obtain mid where
      mid: "expand_neighbors True m (neighbors a) [] state = Inr mid"
      and rest: "expand_atoms True m as atoms0 [] mid = Inr state'"
      by (auto split: sum.splits)
    have "overridden m atoms0 mid \<and> set (fst mid) = set (fst state) \<union> set (neighbors a)"
      using mid Cons.prems(2) by (rule expand_neighbors_no_groups)
    then show ?thesis
      using Cons.IH [OF rest] True by auto
  qed
qed

section \<open>Claims on the Atom Change Detector, the Wildcard Symbol Generator and the
  Neighborhood Expander\<close>

text \<open>
  Claim C2 does not hold of the code. In the loop over the tagged atoms of a used
  reactant molecule the index \<open>j\<close> counts within that molecule, but the atom appended is
  \<open>reac_atoms[j]\<close>, taken from the list of the tagged atoms of all reactants. For
  \<open>[OH2:1].[CH3:2][Cl:3]>>[OH2:1].[CH4:2]\<close> the label \<open>3\<close> of the leaving chlorine is
  returned together with the carbon atom, whose label is \<open>2\<close>.
\<close>

theorem get_changed_atoms_wrong_leaving_atom:
  "get_changed_atoms example_reactants example_products
     = Inr ([methyl_c, methyl_c], [''2'', ''3''], 0)
   \<and> atom_tag (smarts methyl_c) = ''2''
   \<and> atom_tag (smarts chlorine) = ''3''"
  by code_simp

text \<open>
  Claim C6, as stated, fails in super-general mode: the shortcut for terminal atoms is
  under \<open>if not SUPER_GENERAL_TEMPLATES\<close>, so an unmapped atom of degree 1 that falls
  through gets the bracketed pattern. The oxygen of an unmapped methanol becomes
  \<open>[#8]\<close>, not \<open>O\<close>.
\<close>

theorem wildcard_terminal_counterexample:
  "degree hydroxyl_o = 1 \<and> \<not> has_colon (smarts hydroxyl_o) \<and> smarts hydroxyl_o = ''O''
   \<and> convert_atom_to_wildcard True hydroxyl_o = Inr ''[#8]''"
  by code_simp

text \<open>
  Claim C6, amended. In default mode (the super-general flag off) the generator returns
  the unmodified literal symbol of every atom of degree 1.
\<close>

theorem wildcard_terminal_passthrough:
  assumes "degree a = 1"
  shows "convert_atom_to_wildcard False a = Inr (smarts a)"
  using assms by (simp add: convert_atom_to_wildcard_def)

theorem wildcard_terminal_passthrough_witness:
  "degree chlorine = 1 \<and> convert_atom_to_wildcard False chlorine = Inr ''[Cl:3]''"
proof -
  have d: "degree chlorine = 1" by (simp add: chlorine_def)
  have s: "smarts chlorine = ''[Cl:3]''" by (simp add: chlorine_def)
  show ?thesis
    using d wildcard_terminal_passthrough [OF d] by (simp add: s)
qed

text \<open>
  Claim C9. With the super-general flag on, \<open>get_special_groups\<close> returns the empty list
  for every molecule. One hop of the expansion with these groups (as the reactant side
  calls it) therefore adds exactly the neighbors of the atoms of the starting set, no
  cluster, and every index it adds has its own wildcard override in the returned
  symbol replacements.
\<close>

theorem super_general_no_groups:
  assumes "expand_atoms_to_use True m atoms_to_use (get_special_groups matcher True m)
             symbol_replacements = Inr (atoms', replacements')"
  shows "get_special_groups matcher True m = []
       \<and> set atoms' = set atoms_to_use
            \<union> (\<Union>a\<in>{a \<in> set m. idx a \<in> set atoms_to_use}. set (neighbors a))
       \<and> (\<forall>i\<in>set atoms' - set atoms_to_use.
            \<exists>a w. get_atom_with_idx m i = Inr a \<and> convert_atom_to_wildcard True a = Inr w
                 \<and> (i, w) \<in> set replacements')"
proof -
  have "overridden m atoms_to_use (atoms_to_use, symbol_replacements)"
    by (simp add: overridden_def)
  moreover have "expand_atoms True m m atoms_to_use [] (atoms_to_use, symbol_replacements)
      = Inr (atoms', replacements')"
    using assms by (simp add: expand_atoms_to_use_def)
  ultimately have "overridden m atoms_to_use (atoms', replacements')
       \<and> set (fst (atoms', replacements')) = set (fst (atoms_to_use, symbol_replacements))
            \<union> (\<Union>a\<in>{a \<in> set m. idx a \<in> set atoms_to_use}. set (neighbors a))"
    by (intro expand_atoms_no_groups)
  then have "overridden m atoms_to_use (atoms', replacements')"
    and eq: "set atoms' = set atoms_to_use
            \<union> (\<Union>a\<in>{a \<in> set m. idx a \<in> set atoms_to_use}. set (neighbors a))"
    by simp_all
  then have "\<forall>i\<in>set atoms' - set atoms_to_use.
            \<exists>a w. get_atom_with_idx m i = Inr a \<and> convert_atom_to_wildcard True a = Inr w
                 \<and> (i, w) \<in> set replacements'"
    by (simp only: overridden_def fst_conv snd_conv)
  with eq show ?thesis
    by (simp only: get_special_groups_super_general simp_thms)
qed

theorem super_general_no_groups_witness:
  "expand_atoms_to_use True [methyl_c, chlorine] [0]
       (get_special_groups (\<lambda>m t. [[0, 1]]) True [methyl_c, chlorine]) []
     = Inr ([0, 1], [(1, ''[*:3]'')])
   \<and> get_special_groups (\<lambda>m t. [[0, 1]]) True [methyl_c, chlorine] = []
   \<and> (\<exists>a w. get_atom_with_idx [methyl_c, chlorine] 1 = Inr a
          \<and> convert_atom_to_wildcard True a = Inr w
          \<and> (1, w) \<in> set [(1 :: nat, ''[*:3]'')])"
proof -
  have h: "expand_atoms_to_use True [methyl_c, chlorine] [0]
       (get_special_groups (\<lambda>m t. [[0, 1]]) True [methyl_c, chlorine]) []
     = Inr ([0, 1], [(1, ''[*:3]'')])"
    by code_simp
  have "1 \<in> set [0, 1 :: nat] - set [0]" by simp
  with super_general_no_groups [OF h] h show ?thesis
    by blast
qed

section \<open>Properties of the corpus file\<close>

text \<open>Every byte of the file is handed out once: in a line, or later.\<close>

lemma get_line_remaining:
  "get_line b g = (l, g') \<Longrightarrow> remaining g = length l + remaining g'"
proof (induction b g arbitrary: l g' rule: get_line.induct)
  case (1 bufsize f)
  let ?g = "fill bufsize f"
  have same: "remaining ?g = remaining f"
    by (auto simp: fill_def remaining_def min_def)
  show ?case
  proof (cases "readahead ?g = []")
    case True
    then show ?thesis using "1.prems" same
      by (simp add: get_line.simps [of bufsize f])
  next
    case False
    show ?thesis
    proof (cases "newline \<in> set (readahead ?g)")
      case True
      let ?taken = "takeWhile (\<lambda>c. c \<noteq> newline) (readahead ?g)"
      let ?dropped = "dropWhile (\<lambda>c. c \<noteq> newline) (readahead ?g)"
      let ?unread = "length (drop (position ?g) (content ?g))"
      from True have "?dropped \<noteq> []"
        by simp
      then have dropped: "length (tl ?dropped) + 1 = length ?dropped"
        by (cases ?dropped) simp_all
      have split: "length ?taken + length ?dropped = length (readahead ?g)"
        by (metis length_append takeWhile_dropWhile_id)
      have l: "l = ?taken @ [newline]" and g': "g' = ?g\<lparr>readahead := tl ?dropped\<rparr>"
        using "1.prems" False True by (simp_all add: get_line.simps [of bufsize f])
      have "length l = length ?taken + 1"
        by (simp add: l)
      moreover have "remaining g' = length (tl ?dropped) + ?unread"
        by (simp add: g' remaining_def)
      moreover have "remaining ?g = length (readahead ?g) + ?unread"
        by (simp add: remaining_def)
      ultimately show ?thesis
        using same dropped split by linarith
    next
      case no_end: False
      obtain rest f2 where
        r: "get_line (bufsize + bufsize div 4) (?g\<lparr>readahead := []\<rparr>) = (rest, f2)"
        by (cases "get_line (bufsize + bufsize div 4) (?g\<lparr>readahead := []\<rparr>)")
      from "1.IH" [OF False no_end r]
      have "remaining (?g\<lparr>readahead := []\<rparr>) = length rest + remaining f2" .
      moreover have "l = readahead ?g @ rest" and "g' = f2"
        using "1.prems" False no_end r by (simp_all add: get_line.simps [of bufsize f])
      ultimately show ?thesis
        using same by (simp add: remaining_def)
    qed
  qed
qed

termination read_records
proof (relation "measure remaining")
  fix f :: file_object and x :: "string \<times> file_object" and line :: string and f' :: file_object
  assume n: "next_line f = Some x" and x: "(line, f') = x"
  obtain l g where g: "get_line READAHEAD_BUFSIZE f = (l, g)"
    by (cases "get_line READAHEAD_BUFSIZE f")
  from n have "(if l = [] then None else Some (l, g)) = Some (line, f')"
    by (simp add: next_line_def g x [symmetric])
  then have "l \<noteq> [] \<and> l = line \<and> g = f'"
    by (simp split: if_splits)
  with g have "line \<noteq> []" and "get_line READAHEAD_BUFSIZE f = (line, f')"
    by auto
  with get_line_remaining [of READAHEAD_BUFSIZE f line f'] have "remaining f' < remaining f"
    by simp
  then show "(f', f) \<in> measure remaining"
    by simp
qed simp

declare read_records.simps [simp del]

lemma fill_content: "content (fill bufsize f) = content f"
  by (simp add: fill_def)

lemma fill_bounds:
  assumes "length (readahead f) \<le> position f" "position f \<le> length (content f)"
  shows "length (readahead (fill bufsize f)) \<le> position (fill bufsize f)
       \<and> position (fill bufsize f) \<le> length (content f)"
  using assms by (auto simp: fill_def min_def)

lemma get_line_bounds:
  "get_line b f = (l, f') \<Longrightarrow> length (readahead f) \<le> position f \<Longrightarrow>
   position f \<le> length (content f) \<Longrightarrow>
   content f' = content f \<and> length (readahead f') \<le> position f'
     \<and> position f' \<le> length (content f)"
proof (induction b f arbitrary: l f' rule: get_line.induct)
  case (1 bufsize f)
  let ?g = "fill bufsize f"
  have g: "content ?g = content f" "length (readahead ?g) \<le> position ?g"
    "position ?g \<le> length (content f)"
    using fill_bounds [OF "1.prems"(2) "1.prems"(3), of bufsize] by (simp_all add: fill_content)
  show ?case
  proof (cases "readahead ?g = []")
    case True
    then show ?thesis using "1.prems"(1) g
      by (simp add: get_line.simps [of bufsize f])
  next
    case False
    show ?thesis
    proof (cases "newline \<in> set (readahead ?g)")
      case True
      have "length (tl (dropWhile (\<lambda>c. c \<noteq> newline) (readahead ?g))) \<le> length (readahead ?g)"
        using length_dropWhile_le [of "\<lambda>c. c \<noteq> newline" "readahead ?g"] by simp
      then show ?thesis using "1.prems"(1) False True g
        by (auto simp: get_line.simps [of bufsize f])
    next
      case no_end: False
      obtain rest f2 where
        r: "get_line (bufsize + bufsize div 4) (?g\<lparr>readahead := []\<rparr>) = (rest, f2)"
        by (cases "get_line (bufsize + bufsize div 4) (?g\<lparr>readahead := []\<rparr>)")
      have "content f2 = content (?g\<lparr>readahead := []\<rparr>) \<and> length (readahead f2) \<le> position f2
          \<and> position f2 \<le> length (content (?g\<lparr>readahead := []\<rparr>))"
        using g by (intro "1.IH" [OF False no_end r]) simp_all
      moreover have "f' = f2"
        using "1.prems"(1) False no_end r by (simp add: get_line.simps [of bufsize f])
      ultimately show ?thesis using g by simp
    qed
  qed
qed

text \<open>
  What \<open>tell()\<close> reports in the body of the loop: the end of the line just handed out
  and, on top of it, the bytes that wait in the read-ahead buffer.
\<close>

lemma tell_past_line:
  assumes "next_line f = Some (line, f')"
    and "readahead f = []" and "position f \<le> length (content f)"
  shows "tell_file f' = position f + length line + length (readahead f')"
proof -
  from assms(1) have g: "get_line READAHEAD_BUFSIZE f = (line, f')"
    by (auto simp: next_line_def split: prod.splits if_splits)
  from get_line_bounds [OF g] assms(2) assms(3)
  have b: "content f' = content f" "length (readahead f') \<le> position f'"
    "position f' \<le> length (content f)"
    by simp_all
  from get_line_remaining [OF g] assms(2)
  have "length (content f) - position f
      = length line + (length (readahead f') + (length (content f) - position f'))"
    by (simp add: remaining_def b(1))
  with b(3) assms(3) show ?thesis
    by (simp add: tell_file_def)
qed

section \<open>Properties of the Scan Driver\<close>

lemma process_record_written:
  "process_record tk st line = Skipped st' \<Longrightarrow> written st' = written st"
  "process_record tk st line = Recorded st' \<Longrightarrow> written st' = written st"
  by (auto simp: process_record_def split: sum.splits prod.splits if_splits)

lemma paired_from_mono: "paired_from lo es \<Longrightarrow> lo' \<le> lo \<Longrightarrow> paired_from lo' es"
  by (induction lo es rule: paired_from.induct) auto

lemma paired_adjacent:
  assumes "paired_from lo es" "k < length es" "es ! k = WriteCursor i p"
  shows "0 < k \<and> (\<exists>d. es ! (k - 1) = WriteTable i d)"
  using assms
proof (induction lo es arbitrary: k rule: paired_from.induct)
  case (1 lo)
  then show ?case by simp
next
  case (2 lo i' d j p' es)
  show ?case
  proof (cases k)
    case 0
    then show ?thesis using 2 by simp
  next
    case (Suc m)
    show ?thesis
    proof (cases m)
      case 0
      then show ?thesis using Suc 2 by simp
    next
      case (Suc m')
      have "0 < m' \<and> (\<exists>d. es ! (m' - 1) = WriteTable i d)"
        using "2.prems" Suc \<open>k = Suc m\<close> by (intro "2.IH") auto
      then show ?thesis using Suc \<open>k = Suc m\<close> by (cases m') auto
    qed
  qed
next
  case (3 lo e)
  then show ?case by simp
next
  case (4 lo i p e es)
  then show ?case by simp
next
  case (5 lo i d j d' es)
  then show ?case by simp
qed

lemma snapshots_from_append [simp]:
  "snapshots_from tk i lines st (es @ fs)
     \<longleftrightarrow> snapshots_from tk i lines st es \<and> snapshots_from tk i lines st fs"
  by (induction tk i lines st es rule: snapshots_from.induct) auto

lemma snapshots_shift:
  assumes "fst (scan tk i [line] st) = st1"
    and "\<And>ls. scan tk i (line # ls) st = scan tk (i + 1) ls st1"
    and "snapshots_from tk (i + 1) rest st1 es"
  shows "snapshots_from tk i (line # rest) st es"
  using assms(3)
proof (induction es)
  case Nil
  then show ?case by simp
next
  case (Cons e es)
  show ?case
  proof (cases e)
    case (WriteTable j d)
    then have j: "i + 1 \<le> j"
      and d: "d = template_dict (fst (scan tk (i + 1) (take (Suc (j - (i + 1))) rest) st1))"
      and es: "snapshots_from tk (i + 1) rest st1 es"
      using Cons.prems by simp_all
    from j have "take (Suc (j - i)) (line # rest) = line # take (Suc (j - (i + 1))) rest"
      by (simp add: Suc_diff_Suc)
    then have "scan tk i (take (Suc (j - i)) (line # rest)) st
        = scan tk (i + 1) (take (Suc (j - (i + 1))) rest) st1"
      by (simp only: assms(2))
    then show ?thesis
      using WriteTable j d Cons.IH [OF es] by simp
  next
    case (WriteCursor j p)
    then show ?thesis using Cons by simp
  qed
qed

lemma snapshots_shift_skipped:
  assumes "process_record tk st line = Skipped st'"
    and "snapshots_from tk (i + 1) rest st' es"
  shows "snapshots_from tk i (line # rest) st es"
  using assms by (intro snapshots_shift [where ?st1.0 = st']) simp_all

lemma snapshots_shift_recorded:
  assumes "process_record tk st line = Recorded st'"
    and "snapshots_from tk (i + 1) rest (checkpoint tk i st') es"
  shows "snapshots_from tk i (line # rest) st es"
  using assms by (intro snapshots_shift [where ?st1.0 = "checkpoint tk i st'"]) simp_all

lemma checkpoint_template_dict [simp]:
  "template_dict (checkpoint tk i st) = template_dict st"
  by (simp add: checkpoint_def)

lemma scan_snapshots:
  "\<exists>new. written (fst (scan tk i lines st)) = written st @ new
        \<and> paired_from i new \<and> snapshots_from tk i lines st new"
proof (induction lines arbitrary: i st)
  case Nil
  then show ?case by simp
next
  case (Cons line rest)
  show ?case
  proof (cases "process_record tk st line")
    case (Raised e)
    then show ?thesis by simp
  next
    case (Skipped st')
    from Cons.IH [of "i + 1" st'] obtain new where new:
      "written (fst (scan tk (i + 1) rest st')) = written st' @ new" "paired_from (i + 1) new"
      "snapshots_from tk (i + 1) rest st' new"
      by blast
    have "written (fst (scan tk i (line # rest) st)) = written st @ new"
      using Skipped process_record_written(1) [OF Skipped] new(1) by simp
    moreover have "paired_from i new"
      using new(2) by (rule paired_from_mono) simp
    moreover have "snapshots_from tk i (line # rest) st new"
      using Skipped new(3) by (rule snapshots_shift_skipped)
    ultimately show ?thesis by blast
  next
    case (Recorded st')
    from Cons.IH [of "i + 1" "checkpoint tk i st'"] obtain new where new:
      "written (fst (scan tk (i + 1) rest (checkpoint tk i st')))
         = written (checkpoint tk i st') @ new" "paired_from (i + 1) new"
      "snapshots_from tk (i + 1) rest (checkpoint tk i st') new"
      by blast
    have shifted: "snapshots_from tk i (line # rest) st new"
      using Recorded new(3) by (rule snapshots_shift_recorded)
    show ?thesis
    proof (cases "i mod 10000 = 0")
      case True
      let ?w = "[WriteTable i (template_dict st'), WriteCursor i (tell tk i)]"
      have "written (checkpoint tk i st') = written st @ ?w"
        using True process_record_written(2) [OF Recorded] by (simp add: checkpoint_def)
      then have "written (fst (scan tk i (line # rest) st)) = written st @ (?w @ new)"
        using Recorded new(1) by simp
      moreover have "paired_from i (?w @ new)"
        using new(2) by simp
      moreover have "snapshots_from tk i (line # rest) st ?w"
        using Recorded by simp
      ultimately show ?thesis using shifted
        by (metis snapshots_from_append)
    next
      case False
      then have "written (checkpoint tk i st') = written st"
        using process_record_written(2) [OF Recorded] by (simp add: checkpoint_def)
      then have "written (fst (scan tk i (line # rest) st)) = written st @ new"
        using Recorded new(1) by simp
      moreover have "paired_from i new"
        using new(2) by (rule paired_from_mono) simp
      ultimately show ?thesis using shifted by blast
    qed
  qed
qed

lemma not_fully_mapped_iff:
  "not_fully_mapped product \<longleftrightarrow> (\<exists>a\<in>set product. map_number a = None)"
proof -
  have "length (filter (\<lambda>a. map_number a \<noteq> None) product) < length product
      \<longleftrightarrow> filter (\<lambda>a. map_number a \<noteq> None) product \<noteq> product"
    using length_filter_le [of "\<lambda>a. map_number a \<noteq> None" product]
    by (metis filter_id_conv length_filter_less nat_less_le)
  then show ?thesis
    by (auto simp: not_fully_mapped_def filter_id_conv)
qed

lemma snapshots_nth_table:
  "snapshots_from tk i lines st es \<Longrightarrow> k < length es \<Longrightarrow> es ! k = WriteTable j d \<Longrightarrow>
   d = template_dict (fst (scan tk i (take (Suc (j - i)) lines) st))"
proof (induction es arbitrary: k)
  case Nil
  then show ?case by simp
next
  case (Cons e es)
  then show ?case by (cases k; cases e) auto
qed

lemma snapshots_nth_cursor:
  "snapshots_from tk i lines st es \<Longrightarrow> k < length es \<Longrightarrow> es ! k = WriteCursor j p \<Longrightarrow>
   p = tell tk j"
proof (induction es arbitrary: k)
  case Nil
  then show ?case by simp
next
  case (Cons e es)
  then show ?case by (cases k; cases e) auto
qed

lemma expand_hops_zero:
  "expand_hops super_general m groups 0 state = Inr state"
  by simp

lemma expand_hops_one:
  "expand_hops super_general m groups 1 (atoms_to_use, symbol_replacements)
     = expand_atoms_to_use super_general m atoms_to_use groups symbol_replacements"
  by (simp split: sum.splits)

lemma fst_main: "fst (main tk lines st) = fst (scan tk 0 lines st)"
  by (simp add: main_def split: prod.splits option.splits)

text \<open>
  The order of the writes. In a scan that starts with no write, every write of the
  cursor comes directly behind a write of the table at the same record; the table
  written is the frequency table after the records up to that one, and the cursor
  written is what \<open>tell()\<close> reports there.
\<close>

lemma checkpoint_writes_paired:
  assumes "written st = []"
    and "k < length (written (fst (main tk lines st)))"
    and "written (fst (main tk lines st)) ! k = WriteCursor i p"
  shows "0 < k \<and> p = tell tk i
       \<and> written (fst (main tk lines st)) ! (k - 1)
           = WriteTable i (template_dict (fst (scan tk 0 (take (Suc i) lines) st)))"
proof -
  let ?log = "written (fst (main tk lines st))"
  from scan_snapshots [of tk 0 lines st] assms(1)
  have paired: "paired_from 0 ?log" and snaps: "snapshots_from tk 0 lines st ?log"
    by (auto simp: fst_main)
  from paired_adjacent [OF paired assms(2) assms(3)] obtain d where
    pos: "0 < k" and t: "?log ! (k - 1) = WriteTable i d" by blast
  have "d = template_dict (fst (scan tk 0 (take (Suc (i - 0)) lines) st))"
    using snaps _ t by (rule snapshots_nth_table) (use assms(2) in simp)
  moreover have "p = tell tk i"
    using snaps assms(2) assms(3) by (rule snapshots_nth_cursor)
  ultimately show ?thesis using pos t by simp
qed

text \<open>
  The driver's fragment extraction against the one without a radius: radius 1 on the
  reactant side is one run of the expander, radius 0 on the product side is none, and
  the fragment text is the joined text of the selected molecules.
\<close>

lemma select_atoms_one_hop:
  "select_atoms tk super_general m changed_atom_tags 1 Reactants []
     = one_hop_selection tk super_general changed_atom_tags m"
proof (cases "seed_atoms m changed_atom_tags ([], [])")
  case (Pair seeds seed_symbols)
  then show ?thesis
    by (simp add: select_atoms_def one_hop_selection_def split: sum.splits prod.splits)
qed

lemma select_atoms_no_hop:
  "select_atoms tk super_general m changed_atom_tags 0 Products expansion
     = no_hop_selection super_general changed_atom_tags expansion m"
proof (cases "seed_atoms m changed_atom_tags ([], [])")
  case (Pair seeds seed_symbols)
  then show ?thesis
    by (simp add: select_atoms_def no_hop_selection_def split: sum.splits prod.splits)
qed

lemma collect_selected:
  "collect_fragments tk super_general ms changed_atom_tags radius cat expansion fragments
     = (case selected_fragments tk
               (\<lambda>m. select_atoms tk super_general m changed_atom_tags radius cat expansion) ms of
          Inl e \<Rightarrow> Inl e
        | Inr texts \<Rightarrow> Inr (fragments @ concat (map (\<lambda>text. text @ ''.'') texts)))"
proof (induction ms arbitrary: fragments)
  case Nil
  then show ?case by simp
next
  case (Cons m ms)
  show ?case
    by (simp add: Cons.IH split: sum.splits prod.splits)
qed

lemma butlast_dotted:
  "butlast (concat (map (\<lambda>text. text @ ''.'') texts)) = join ''.'' texts"
proof (induction texts)
  case Nil
  then show ?case by simp
next
  case (Cons x xs)
  show ?case
  proof (cases xs)
    case Nil
    then show ?thesis by (simp add: butlast_append)
  next
    case (Cons y ys)
    then have "concat (map (\<lambda>text. text @ ''.'') xs) \<noteq> []"
      by simp
    then have "butlast (concat (map (\<lambda>text. text @ ''.'') (x # xs)))
        = (x @ ''.'') @ butlast (concat (map (\<lambda>text. text @ ''.'') xs))"
      by (simp add: butlast_append)
    then show ?thesis using Cons.IH Cons by simp
  qed
qed

lemma get_fragments_selected:
  "get_fragments_for_changed_atoms tk super_general mols changed_atom_tags radius cat expansion
     = fragment_text tk
         (\<lambda>m. select_atoms tk super_general m changed_atom_tags radius cat expansion) mols"
  by (simp add: get_fragments_for_changed_atoms_def fragment_text_def collect_selected
      butlast_dotted split: sum.splits)

text \<open>
  The radius decides which atoms of 1-chloropropane are selected around the changed
  carbon 2 and chlorine 3: none more at radius 0, carbon 4 at radius 1, carbon 5 as well
  at radius 2.
\<close>

lemma radius_selects_neighbours:
  "map (\<lambda>radius. select_atoms example_toolkit SUPER_GENERAL_TEMPLATES chloropropane
                    [''2'', ''3''] radius Reactants []) [0, 1, 2]
     = [Inr ([2, 3], [''[CH3:5]'', ''[CH2:4]'', ''[CH2;+0:2]'', ''[Cl;H0;+0:3]'']),
        Inr ([2, 3, 1], [''[CH3:5]'', ''[*:4]'', ''[CH2;+0:2]'', ''[Cl;H0;+0:3]'']),
        Inr ([2, 3, 1, 0], [''[*:5]'', ''[*:4]'', ''[CH2;+0:2]'', ''[Cl;H0;+0:3]''])]"
  by code_simp

section \<open>Claims on the Scan Driver\<close>

text \<open>
  Claim C1 does not hold of the code. Both \<open>except\<close> blocks of \<open>main\<close> begin with
  \<open>raise(e)\<close>, in front of the \<open>continue\<close> that the comment \<open>can't sanitize -> skip\<close>
  announces: an exception of one record leaves the loop. When the first \<open>try\<close> block
  raises for a line (it cannot be parsed or sanitized), the scan ends there with that
  exception, in the state it had, whatever lines follow; no counter is incremented.
\<close>

theorem record_exception_ends_scan:
  assumes "unpack tk line = Inl e"
  shows "process_record tk st line = Raised e \<and> scan tk i (line # rest) st = (st, Some e)"
  using assms by (simp add: process_record_def)

theorem record_exception_ends_scan_witness:
  "unpack example_toolkit ''C(>>C'' = Inl ToolkitError
   \<and> process_record example_toolkit empty_state ''C(>>C'' = Raised ToolkitError
   \<and> scan example_toolkit 0 [''C(>>C'', example_line] empty_state
       = (empty_state, Some ToolkitError)"
proof -
  have h: "unpack example_toolkit ''C(>>C'' = Inl ToolkitError"
    by code_simp
  show ?thesis
    using h record_exception_ends_scan [OF h] by simp
qed

text \<open>
  Claim C7. A record that the toolkit parses and whose products hold an atom without
  map number is skipped before any template is derived: the partially-mapped counter
  goes up by one, the frequency table is as it was, and the scan goes on with the next
  record.
\<close>

theorem partially_mapped_record_skipped:
  assumes "unpack tk line = Inr (reactants, agents, products)"
    and "\<exists>product\<in>set products. \<exists>a\<in>set product. map_number a = None"
  shows "\<exists>st'. process_record tk st line = Skipped st'
           \<and> template_dict st' = template_dict st
           \<and> total_partialmapped st' = total_partialmapped st + 1
           \<and> scan tk i (line # rest) st = scan tk (i + 1) rest st'"
proof -
  have "list_ex not_fully_mapped products"
    using assms(2) by (simp add: list_ex_iff not_fully_mapped_iff)
  then have "process_record tk st line
      = Skipped (st\<lparr>total_partialmapped := total_partialmapped st + 1\<rparr>)"
    using assms(1) by (simp add: process_record_def)
  then show ?thesis by simp
qed

theorem partially_mapped_record_skipped_witness:
  "unpack example_toolkit partly_mapped_line = Inr ([[methyl_c, chlorine]], [], [[methanol_c, hydroxyl_o]])
   \<and> map_number hydroxyl_o = None
   \<and> (\<exists>st'. process_record example_toolkit empty_state partly_mapped_line = Skipped st'
           \<and> template_dict st' = template_dict empty_state
           \<and> total_partialmapped st' = total_partialmapped empty_state + 1
           \<and> scan example_toolkit 0 [partly_mapped_line, example_line] empty_state
               = scan example_toolkit (0 + 1) [example_line] st')"
proof -
  have u: "unpack example_toolkit partly_mapped_line
      = Inr ([[methyl_c, chlorine]], [], [[methanol_c, hydroxyl_o]])"
    by code_simp
  have n: "map_number hydroxyl_o = None"
    by (simp add: hydroxyl_o_def)
  then have e: "\<exists>product\<in>set [[methanol_c, hydroxyl_o]]. \<exists>a\<in>set product. map_number a = None"
    by simp
  show ?thesis
    using u n partially_mapped_record_skipped [OF u e, of empty_state 0 "[example_line]"]
    by blast
qed

text \<open>
  Claim C8 does not hold of the code. The two writes of a checkpoint come in the order
  the claim asks for, the table and then the cursor. But the cursor written is
  \<open>reaction_fid.tell()\<close>, taken inside the loop \<open>for line in reaction_fid\<close>: the position
  the read-ahead of the file iterator has reached, not the end of the record that the
  table reflects; it is ahead of that record by the bytes that wait in the buffer. For
  the corpus of two records, 39 bytes each, the checkpoint at the first record writes
  the table with that one record counted and the cursor 78, the end of the file. A
  start from these two files reads no record: the second record, which the run without
  interruption counts, is never counted (and the report then divides by zero). From
  the cursor 39, the end of the first record, it is counted.
\<close>

theorem checkpoint_cursor_past_table:
  "written (fst (start example_toolkit two_records None))
     = [WriteTable 0 [(''[CH4;+0:1]>>[CH3;+0:1]-[Cl;H0;+0:2]'', 1)], WriteCursor 0 78]
   \<and> map (\<lambda>(line, p). length line) (read_records (seek (open_file two_records) 0)) = [39, 39]
   \<and> template_dict (fst (start example_toolkit two_records None))
       = [(''[CH4;+0:1]>>[CH3;+0:1]-[Cl;H0;+0:2]'', 2)]
   \<and> start example_toolkit two_records
         (Some ([(''[CH4;+0:1]>>[CH3;+0:1]-[Cl;H0;+0:2]'', 1)], 78))
       = (initial_state [(''[CH4;+0:1]>>[CH3;+0:1]-[Cl;H0;+0:2]'', 1)], Some ZeroDivisionError)
   \<and> template_dict (fst (start example_toolkit two_records
         (Some ([(''[CH4;+0:1]>>[CH3;+0:1]-[Cl;H0;+0:2]'', 1)], 39))))
       = [(''[CH4;+0:1]>>[CH3;+0:1]-[Cl;H0;+0:2]'', 2)]"
proof -
  note reads = read_records.simps next_line_def get_line.simps fill_def open_file_def seek_def
    two_records_def example_line_def READAHEAD_BUFSIZE_def newline_def tell_file_def
  have from_0: "read_records (seek (open_file two_records) 0)
      = [(example_line @ [newline], 78), (example_line @ [newline], 78)]"
    by (simp add: reads)
  have from_39: "read_records (seek (open_file two_records) 39)
      = [(example_line @ [newline], 78)]"
    by (simp add: reads)
  have from_78: "read_records (seek (open_file two_records) 78) = []"
    by (simp add: reads)
  have "written (fst (start example_toolkit two_records None))
      = [WriteTable 0 [(''[CH4;+0:1]>>[CH3;+0:1]-[Cl;H0;+0:2]'', 1)], WriteCursor 0 78]"
    unfolding start_def main_on_def option.case prod.case from_0 by code_simp
  moreover have "map (\<lambda>(line, p). length line) (read_records (seek (open_file two_records) 0))
      = [39, 39]"
    unfolding from_0 by (simp add: example_line_def)
  moreover have "template_dict (fst (start example_toolkit two_records None))
      = [(''[CH4;+0:1]>>[CH3;+0:1]-[Cl;H0;+0:2]'', 2)]"
    unfolding start_def main_on_def option.case prod.case from_0 by code_simp
  moreover have "start example_toolkit two_records
        (Some ([(''[CH4;+0:1]>>[CH3;+0:1]-[Cl;H0;+0:2]'', 1)], 78))
      = (initial_state [(''[CH4;+0:1]>>[CH3;+0:1]-[Cl;H0;+0:2]'', 1)], Some ZeroDivisionError)"
    unfolding start_def main_on_def option.case prod.case from_78 by code_simp
  moreover have "template_dict (fst (start example_toolkit two_records
        (Some ([(''[CH4;+0:1]>>[CH3;+0:1]-[Cl;H0;+0:2]'', 1)], 39))))
      = [(''[CH4;+0:1]>>[CH3;+0:1]-[Cl;H0;+0:2]'', 2)]"
    unfolding start_def main_on_def option.case prod.case from_39 by code_simp
  ultimately show ?thesis
    by blast
qed

text \<open>
  Claim C10. Every record that comes as far as the fragment extraction (it parses, its
  products are fully mapped, and some atom changed) is processed with the reactant
  fragments of exactly one run of the Neighborhood Expander around the changed atoms,
  which is radius 1, and the product fragments of no run, which is radius 0; whatever
  the outcome for the record, an exception, a skip or a template recorded. Any other
  record ends before fragments are extracted. The driver takes no radius from its
  caller: \<open>process_record\<close> and \<open>main\<close> have no such argument.
\<close>

theorem driver_radius_fixed:
  assumes "unpack tk line = Inr (reactants, agents, products)"
    and "\<not> list_ex not_fully_mapped products"
    and "get_changed_atoms reactants products = Inr (changed_atoms, changed_atom_tags, 0)"
    and "changed_atom_tags \<noteq> []"
  shows "process_record tk st line =
     (case fragment_text tk
             (one_hop_selection tk SUPER_GENERAL_TEMPLATES changed_atom_tags) reactants of
        Inl e \<Rightarrow> Raised e
      | Inr reactant_fragments \<Rightarrow>
          (case fragment_text tk
                  (no_hop_selection SUPER_GENERAL_TEMPLATES changed_atom_tags
                     (expand_changed_atom_tags changed_atom_tags reactant_fragments)) products of
             Inl e \<Rightarrow> Raised e
           | Inr product_fragments \<Rightarrow>
               record_transform tk st (reactant_fragments @ ''>>'' @ product_fragments)))"
proof -
  have r: "get_fragments_for_changed_atoms tk SUPER_GENERAL_TEMPLATES mols tags 1 Reactants []
      = fragment_text tk (one_hop_selection tk SUPER_GENERAL_TEMPLATES tags) mols"
    for mols tags
    by (simp only: get_fragments_selected select_atoms_one_hop)
  have p: "get_fragments_for_changed_atoms tk SUPER_GENERAL_TEMPLATES mols tags 0 Products
        expansion
      = fragment_text tk (no_hop_selection SUPER_GENERAL_TEMPLATES tags expansion) mols"
    for mols tags expansion
    by (simp only: get_fragments_selected select_atoms_no_hop)
  show ?thesis
    unfolding process_record_def r p record_transform_def
    using assms by simp
qed

theorem driver_radius_fixed_witness:
  "unpack example_toolkit hydrolysis_line = Inr ([chloropropane], [[water_o]], [propanol])
   \<and> \<not> list_ex not_fully_mapped [propanol]
   \<and> get_changed_atoms [chloropropane] [propanol]
       = Inr ([chloride_c2, chloride_cl], [''2'', ''3''], 0)
   \<and> one_hop_selection example_toolkit SUPER_GENERAL_TEMPLATES [''2'', ''3''] chloropropane
       = Inr ([2, 3, 1], [''[CH3:5]'', ''[*:4]'', ''[CH2;+0:2]'', ''[Cl;H0;+0:3]''])
   \<and> no_hop_selection SUPER_GENERAL_TEMPLATES [''2'', ''3''] [''4''] propanol
       = Inr ([2, 1], [''[CH3:5]'', ''[*:4]'', ''[CH2;+0:2]'', ''[OH:1]''])
   \<and> process_record example_toolkit empty_state hydrolysis_line
       = Recorded (empty_state\<lparr>template_dict :=
                      [(''[*:1]-[CH2;+0:2]>>[*:1]-[CH2;+0:2]-[Cl;H0;+0:3]'', 1)],
                    total_attempted := 1\<rparr>)"
proof -
  have u: "unpack example_toolkit hydrolysis_line
      = Inr ([chloropropane], [[water_o]], [propanol])"
    by code_simp
  have m: "\<not> list_ex not_fully_mapped [propanol]"
    by code_simp
  have c: "get_changed_atoms [chloropropane] [propanol]
      = Inr ([chloride_c2, chloride_cl], [''2'', ''3''], 0)"
    by code_simp
  have t: "[''2'', ''3''] \<noteq> ([] :: string list)"
    by simp
  have r: "one_hop_selection example_toolkit SUPER_GENERAL_TEMPLATES [''2'', ''3''] chloropropane
      = Inr ([2, 3, 1], [''[CH3:5]'', ''[*:4]'', ''[CH2;+0:2]'', ''[Cl;H0;+0:3]''])"
    by code_simp
  have p: "no_hop_selection SUPER_GENERAL_TEMPLATES [''2'', ''3''] [''4''] propanol
      = Inr ([2, 1], [''[CH3:5]'', ''[*:4]'', ''[CH2;+0:2]'', ''[OH:1]''])"
    by code_simp
  have v: "(case fragment_text example_toolkit
                  (one_hop_selection example_toolkit SUPER_GENERAL_TEMPLATES [''2'', ''3''])
                  [chloropropane] of
              Inl e \<Rightarrow> Raised e
            | Inr reactant_fragments \<Rightarrow>
                (case fragment_text example_toolkit
                        (no_hop_selection SUPER_GENERAL_TEMPLATES [''2'', ''3'']
                           (expand_changed_atom_tags [''2'', ''3''] reactant_fragments))
                        [propanol] of
                   Inl e \<Rightarrow> Raised e
                 | Inr product_fragments \<Rightarrow>
                     record_transform example_toolkit empty_state
                       (reactant_fragments @ ''>>'' @ product_fragments)))
      = Recorded (empty_state\<lparr>template_dict :=
                      [(''[*:1]-[CH2;+0:2]>>[*:1]-[CH2;+0:2]-[Cl;H0;+0:3]'', 1)],
                    total_attempted := 1\<rparr>)"
    by code_simp
  from driver_radius_fixed [OF u m c t, of empty_state] v
  have "process_record example_toolkit empty_state hydrolysis_line
      = Recorded (empty_state\<lparr>template_dict :=
                      [(''[*:1]-[CH2;+0:2]>>[*:1]-[CH2;+0:2]-[Cl;H0;+0:3]'', 1)],
                    total_attempted := 1\<rparr>)"
    by simp
  with u m c r p show ?thesis
    by blast
qed

end
